theory Spec2Isabelle
  imports Main
begin

section \<open>The array-backed FIFO queue of mm1\_example.c and fifo\_example.c\<close>

text \<open>
  The C code keeps a queue in three pieces that every function receives: the array
  \<^verbatim>\<open>char *fifo[]\<close> of nullable pointers, and the two indices behind \<^verbatim>\<open>p_head\<close> and
  \<^verbatim>\<open>p_tail\<close>. The array length travels separately as \<^verbatim>\<open>int size\<close>.

  A pointer is an \<open>option\<close>: \<open>None\<close> is \<^verbatim>\<open>NULL\<close>, \<open>Some e\<close> points to the element \<open>e\<close>.
  Indices, \<^verbatim>\<open>size\<close>, \<^verbatim>\<open>limit\<close> and the status are C \<^verbatim>\<open>int\<close>s, modelled as \<open>int\<close>: every
  addition below is on an index that was just checked to lie inside the array or on a
  counter bounded by \<^verbatim>\<open>size\<close>, so no signed overflow can occur for arrays of fewer than
  \<open>2^31\<close> slots.

  Reading or writing the array outside its bounds and \<^verbatim>\<open>% 0\<close> are undefined in C; the
  model makes each of them an error value, so a result \<open>Inr \<dots>\<close> says that the call ran
  without either.

  The two files contain the same \<^verbatim>\<open>enqueue\<close> and \<^verbatim>\<open>dequeue\<close>; fifo\_example.c adds
  \<^verbatim>\<open>puts\<close> and \<^verbatim>\<open>printf\<close> calls in front of the processing statements, which do not touch
  the queue and are left out. The parameter \<^verbatim>\<open>size\<close> is written \<open>sz\<close> below.
\<close>

record 'a queue =
  fifo :: "'a option list"
  head :: int
  tail :: int

datatype error = OutOfBounds | DivisionByZero

text \<open>C's \<^verbatim>\<open>%\<close> on \<^verbatim>\<open>int\<close> truncates towards zero: the result has the sign of the dividend.\<close>

definition c_rem :: "int \<Rightarrow> int \<Rightarrow> int" where
  "c_rem a b = sgn a * (\<bar>a\<bar> mod \<bar>b\<bar>)"

definition in_bounds :: "'a option list \<Rightarrow> int \<Rightarrow> bool" where
  "in_bounds arr i \<longleftrightarrow> 0 \<le> i \<and> i < int (length arr)"

subsection \<open>enqueue\<close>

text \<open>
  \<^verbatim>\<open>
  int enqueue(char *fifo[], int size, int *p_head, int *p_tail, char *arrival) {
      fifo[*p_tail] = arrival;
      *p_tail = (*p_tail + 1) % size;
      // next slot must be empty, otherwise overflow
      if (!fifo[*p_tail]) { return 0; } else { return 1; }
  }
  \<close>
\<close>

definition enqueue :: "'a queue \<Rightarrow> int \<Rightarrow> 'a option \<Rightarrow> error + (int \<times> 'a queue)" where
  "enqueue q sz arrival =
     (if \<not> in_bounds (fifo q) (tail q) then Inl OutOfBounds
      else if sz = 0 then Inl DivisionByZero
      else
        let q1 = q\<lparr>fifo := (fifo q)[nat (tail q) := arrival]\<rparr>;
            q2 = q1\<lparr>tail := c_rem (tail q1 + 1) sz\<rparr>
        in if \<not> in_bounds (fifo q2) (tail q2) then Inl OutOfBounds
           else if fifo q2 ! nat (tail q2) = None then Inr (0, q2)
           else Inr (1, q2))"

subsection \<open>dequeue\<close>

text \<open>
  \<^verbatim>\<open>
  char* dequeue(char *fifo[], int size, int *p_head, int *p_tail) {
      char *departure = fifo[*p_head];
      if (departure) {
          fifo[*p_head] = NULL;
          if (*p_head != *p_tail) {
              *p_head = (*p_head + 1) % size;
          }
      }
      return departure;
  }
  \<close>
\<close>

definition dequeue :: "'a queue \<Rightarrow> int \<Rightarrow> error + ('a option \<times> 'a queue)" where
  "dequeue q sz =
     (if \<not> in_bounds (fifo q) (head q) then Inl OutOfBounds
      else
        let departure = fifo q ! nat (head q)
        in if departure \<noteq> None then
             (let q1 = q\<lparr>fifo := (fifo q)[nat (head q) := None]\<rparr>
              in if head q1 \<noteq> tail q1 then
                   (if sz = 0 then Inl DivisionByZero
                    else Inr (departure, q1\<lparr>head := c_rem (head q1 + 1) sz\<rparr>))
                 else Inr (departure, q1))
           else Inr (departure, q))"

subsection \<open>check\_and\_truncate\<close>

text \<open>
  \<^verbatim>\<open>
  void check_and_truncate(char *fifo[], int size, int *p_head, int limit) {
      int queue_length = 0;
      for(int i = 0; i < size; i++) {
          if (fifo[i]) { queue_length++; }
      }
      while (fifo[*p_head] && queue_length > limit) {
          fifo[*p_head] = NULL;
          *p_head = (*p_head + 1) % size;
          queue_length--;
      }
  }
  \<close>
  The counting loop (the same loop is in \<^verbatim>\<open>show_queue\<close>) is \<open>count_loop\<close>, with the loop
  variable \<open>i\<close> and the running \<open>queue_length\<close> as arguments; started at \<open>i = 0\<close> and
  \<open>queue_length = 0\<close> it is \<open>len\<close>, the occupancy the specification calls \<^verbatim>\<open>len()\<close>.
\<close>

function count_loop :: "'a option list \<Rightarrow> int \<Rightarrow> int \<Rightarrow> int \<Rightarrow> error + int" where
  "count_loop arr sz i queue_length =
     (if i < sz then
        (if \<not> in_bounds arr i then Inl OutOfBounds
         else count_loop arr sz (i + 1)
                (if arr ! nat i \<noteq> None then queue_length + 1 else queue_length))
      else Inr queue_length)"
  by pat_completeness auto
termination
  by (relation "measure (\<lambda>(arr, sz, i, queue_length). nat (sz - i))") auto

declare count_loop.simps [simp del]

definition len :: "'a option list \<Rightarrow> int \<Rightarrow> error + int" where
  "len arr sz = count_loop arr sz 0 0"

text \<open>The number of occupied slots of an array, as a list function.\<close>

definition occupied :: "'a option list \<Rightarrow> nat" where
  "occupied arr = length (filter (\<lambda>p. p \<noteq> None) arr)"

text \<open>
  One pass through the body of the \<^verbatim>\<open>while\<close> loop, without the local counter:
  \<^verbatim>\<open>fifo[*p_head] = NULL; *p_head = (*p_head + 1) % size;\<close>
\<close>

definition evict :: "'a queue \<Rightarrow> int \<Rightarrow> error + 'a queue" where
  "evict q sz =
     (if \<not> in_bounds (fifo q) (head q) then Inl OutOfBounds
      else if sz = 0 then Inl DivisionByZero
      else Inr (q\<lparr>fifo := (fifo q)[nat (head q) := None],
                  head := c_rem (head q + 1) sz\<rparr>))"

lemma occupied_clear:
  "n < length arr \<Longrightarrow> arr ! n \<noteq> None \<Longrightarrow> occupied (arr[n := None]) < occupied arr"
proof (induction arr arbitrary: n)
  case Nil
  then show ?case by simp
next
  case (Cons p arr)
  show ?case
  proof (cases n)
    case 0
    with Cons.prems show ?thesis by (simp add: occupied_def)
  next
    case (Suc m)
    with Cons.prems have "occupied (arr[m := None]) < occupied arr"
      by (intro Cons.IH) simp_all
    with Suc show ?thesis by (simp add: occupied_def)
  qed
qed

lemma evict_occupied:
  "evict q sz = Inr q' \<Longrightarrow> fifo q ! nat (head q) \<noteq> None \<Longrightarrow>
   occupied (fifo q') < occupied (fifo q)"
  by (auto simp: evict_def in_bounds_def split: if_splits intro!: occupied_clear)

function truncate_loop :: "'a queue \<Rightarrow> int \<Rightarrow> int \<Rightarrow> int \<Rightarrow> error + 'a queue" where
  "truncate_loop q sz limit queue_length =
     (if \<not> in_bounds (fifo q) (head q) then Inl OutOfBounds
      else if fifo q ! nat (head q) \<noteq> None \<and> queue_length > limit then
        (case evict q sz of
           Inl e \<Rightarrow> Inl e
         | Inr q' \<Rightarrow> truncate_loop q' sz limit (queue_length - 1))
      else Inr q)"
  by pat_completeness auto
termination
  by (relation "measure (\<lambda>(q, sz, limit, queue_length). occupied (fifo q))")
     (auto dest: evict_occupied)

declare truncate_loop.simps [simp del]

definition check_and_truncate :: "'a queue \<Rightarrow> int \<Rightarrow> int \<Rightarrow> error + 'a queue" where
  "check_and_truncate q sz limit =
     (case len (fifo q) sz of
        Inl e \<Rightarrow> Inl e
      | Inr queue_length \<Rightarrow> truncate_loop q sz limit queue_length)"

subsection \<open>Construction and sequences of calls\<close>

text \<open>
  Both \<^verbatim>\<open>main\<close> functions start from an array of \<^verbatim>\<open>NULL\<close>s with \<^verbatim>\<open>head = tail = 0\<close>
  and then issue calls one after the other on the same array and indices, always with
  the same \<^verbatim>\<open>size\<close>. \<open>run\<close> does that for a list of calls and collects what each call
  returns: the status of an enqueue, the pointer a dequeue returns, nothing for
  \<^verbatim>\<open>check_and_truncate\<close> (the call the specification names enforce). An enqueued element
  is passed as a non-null pointer.
\<close>

definition init_queue :: "nat \<Rightarrow> 'a queue" where
  "init_queue n = \<lparr>fifo = replicate n None, head = 0, tail = 0\<rparr>"

datatype 'a call = Enqueue 'a | Dequeue | Enforce int

datatype 'a outcome = Status int | Departure "'a option" | Truncated

fun step :: "int \<Rightarrow> 'a queue \<Rightarrow> 'a call \<Rightarrow> error + ('a outcome \<times> 'a queue)" where
  "step sz q (Enqueue e) =
     (case enqueue q sz (Some e) of Inl err \<Rightarrow> Inl err | Inr (s, q') \<Rightarrow> Inr (Status s, q'))"
| "step sz q Dequeue =
     (case dequeue q sz of Inl err \<Rightarrow> Inl err | Inr (d, q') \<Rightarrow> Inr (Departure d, q'))"
| "step sz q (Enforce limit) =
     (case check_and_truncate q sz limit of Inl err \<Rightarrow> Inl err | Inr q' \<Rightarrow> Inr (Truncated, q'))"

fun run :: "int \<Rightarrow> 'a queue \<Rightarrow> 'a call list \<Rightarrow> error + ('a outcome list \<times> 'a queue)" where
  "run sz q [] = Inr ([], q)"
| "run sz q (c # cs) =
     (case step sz q c of
        Inl err \<Rightarrow> Inl err
      | Inr (out, q') \<Rightarrow>
          (case run sz q' cs of
             Inl err \<Rightarrow> Inl err
           | Inr (outs, q'') \<Rightarrow> Inr (out # outs, q'')))"

subsection \<open>The queue an array holds\<close>

text \<open>
  \<open>ring sz q xs\<close>: the state \<open>q\<close> holds the elements \<open>xs\<close>, oldest first, in the slots
  from \<open>head\<close> onwards (wrapping at the end of the array), every other slot is null,
  \<open>tail\<close> is the slot after the last element, and at least one slot is free. These are
  the states that the construction and the calls produce as long as no enqueue
  reports overflow. \<open>rotate h arr\<close> reads the array from index \<open>h\<close>, wrapping.
\<close>

definition ring :: "int \<Rightarrow> 'a queue \<Rightarrow> 'a list \<Rightarrow> bool" where
  "ring sz q xs \<longleftrightarrow>
     sz = int (length (fifo q)) \<and> in_bounds (fifo q) (head q) \<and>
     length xs < length (fifo q) \<and>
     tail q = (head q + int (length xs)) mod sz \<and>
     rotate (nat (head q)) (fifo q) = map Some xs @ replicate (length (fifo q) - length xs) None"

text \<open>\<open>k\<close> passes through the body of the \<^verbatim>\<open>while\<close> loop, one after the other.\<close>

fun evictions :: "nat \<Rightarrow> int \<Rightarrow> 'a queue \<Rightarrow> error + 'a queue" where
  "evictions 0 sz q = Inr q"
| "evictions (Suc k) sz q =
     (case evict q sz of Inl err \<Rightarrow> Inl err | Inr q' \<Rightarrow> evictions k sz q')"

text \<open>
  \<open>holds_from_head sz q xs\<close>: the slots from \<open>head\<close> onwards (wrapping) hold \<open>xs\<close> in that
  order and every other slot is null. Unlike \<open>ring\<close> it says nothing about \<open>tail\<close> and
  allows the array to be full, so it also describes the state that the first overflowing
  enqueue leaves behind. \<^verbatim>\<open>check_and_truncate\<close> reads and writes only the array and
  \<open>head\<close>.
\<close>

definition holds_from_head :: "int \<Rightarrow> 'a queue \<Rightarrow> 'a list \<Rightarrow> bool" where
  "holds_from_head sz q xs \<longleftrightarrow>
     sz = int (length (fifo q)) \<and> in_bounds (fifo q) (head q) \<and>
     length xs \<le> length (fifo q) \<and>
     rotate (nat (head q)) (fifo q) = map Some xs @ replicate (length (fifo q) - length xs) None"

text \<open>
  The queue as the specification describes it, a list with the oldest element first:
  enqueue appends an element, dequeue removes the first one (nothing on the empty queue),
  and the truncation to \<open>limit\<close> removes the oldest elements until at most \<open>limit\<close> are
  left. \<open>queue_after xs calls\<close> is that list after the calls, starting from \<open>xs\<close>. It is
  compared with the array below; no operation of the C code is defined through it.
\<close>

fun abs_step :: "'a list \<Rightarrow> 'a call \<Rightarrow> 'a list" where
  "abs_step xs (Enqueue e) = xs @ [e]"
| "abs_step xs Dequeue = tl xs"
| "abs_step xs (Enforce limit) = drop (nat (int (length xs) - limit)) xs"

fun queue_after :: "'a list \<Rightarrow> 'a call list \<Rightarrow> 'a list" where
  "queue_after xs [] = xs"
| "queue_after xs (c # cs) = queue_after (abs_step xs c) cs"

section \<open>Lemmas\<close>

subsection \<open>Evaluating the operations\<close>

lemma c_rem_nonneg: "0 \<le> a \<Longrightarrow> 0 < b \<Longrightarrow> c_rem a b = a mod b"
  by (cases "a = 0") (simp_all add: c_rem_def)

lemma run_append:
  "run sz q (cs @ ds) =
     (case run sz q cs of
        Inl err \<Rightarrow> Inl err
      | Inr (outs, q') \<Rightarrow>
          (case run sz q' ds of
             Inl err \<Rightarrow> Inl err
           | Inr (outs', q'') \<Rightarrow> Inr (outs @ outs', q'')))"
  by (induction cs arbitrary: q) (auto split: sum.splits)

lemma dequeue_on_empty_head:
  "in_bounds (fifo q) (head q) \<Longrightarrow> fifo q ! nat (head q) = None \<Longrightarrow>
   dequeue q sz = Inr (None, q)"
  by (simp add: dequeue_def)

subsection \<open>Arrays read from the head index\<close>

lemma mod_shift_inj:
  fixes h i j n :: nat
  assumes "i < n" "j < n" "(h + i) mod n = (h + j) mod n"
  shows "i = j"
proof -
  have aux: "a = b" if "a \<le> b" "b < n" "(h + a) mod n = (h + b) mod n" for a b :: nat
  proof -
    have "n dvd (h + b) - (h + a)"
      using that by (subst mod_eq_dvd_iff_nat [symmetric]) simp_all
    then have "n dvd b - a" by simp
    moreover have "b - a < n" using that by simp
    ultimately have "b - a = 0" by (meson dvd_imp_le not_less zero_less_iff_neq_zero)
    with that show ?thesis by simp
  qed
  show ?thesis
  proof (cases "i \<le> j")
    case True
    then show ?thesis using aux[of i j] assms by simp
  next
    case False
    then show ?thesis using aux[of j i] assms by simp
  qed
qed

lemma rotate_update:
  assumes "i < length ys"
  shows "rotate h (ys[(h + i) mod length ys := v]) = (rotate h ys)[i := v]"
proof (rule nth_equalityI)
  show "length (rotate h (ys[(h + i) mod length ys := v])) = length ((rotate h ys)[i := v])"
    by simp
next
  fix j assume "j < length (rotate h (ys[(h + i) mod length ys := v]))"
  then have j: "j < length ys" by simp
  then have pos: "0 < length ys" by (cases ys) simp_all
  have "(h + i) mod length ys = (h + j) mod length ys \<longleftrightarrow> i = j"
    using mod_shift_inj[OF assms j] by auto
  then show "rotate h (ys[(h + i) mod length ys := v]) ! j = (rotate h ys)[i := v] ! j"
    using j assms pos by (auto simp add: nth_rotate nth_list_update)
qed

lemma ring_slot:
  assumes "ring sz q xs" and "i < length (fifo q)"
  shows "fifo q ! nat ((head q + int i) mod sz) =
         (if i < length xs then Some (xs ! i) else None)"
proof -
  from assms obtain h where h: "head q = int h" and hlt: "h < length (fifo q)"
    by (auto simp: ring_def in_bounds_def elim: nonneg_int_cases)
  have sz: "sz = int (length (fifo q))" using assms by (simp add: ring_def)
  have "nat ((head q + int i) mod sz) = (h + i) mod length (fifo q)"
    by (simp add: h sz flip: of_nat_add zmod_int)
  then have "fifo q ! nat ((head q + int i) mod sz) = rotate h (fifo q) ! i"
    using assms(2) by (simp add: nth_rotate)
  also have "rotate h (fifo q) = map Some xs @ replicate (length (fifo q) - length xs) None"
    using assms(1) by (simp add: ring_def h)
  also have "\<dots> ! i = (if i < length xs then Some (xs ! i) else None)"
    using assms(2) by (simp add: nth_append)
  finally show ?thesis .
qed

lemma ring_head_slot:
  assumes "ring sz q xs"
  shows "fifo q ! nat (head q) = (case xs of [] \<Rightarrow> None | x # _ \<Rightarrow> Some x)"
proof -
  have pos: "0 < length (fifo q)" using assms by (cases "fifo q") (simp_all add: ring_def)
  have "(head q + int 0) mod sz = head q"
    using assms by (simp add: ring_def in_bounds_def)
  with ring_slot[OF assms pos] show ?thesis
    by (simp split: list.splits)
qed

lemma ring_tail_bounds:
  assumes "ring sz q xs"
  shows "in_bounds (fifo q) (tail q)"
proof -
  have "0 < sz" using assms by (cases "fifo q") (simp_all add: ring_def)
  then have "0 \<le> tail q \<and> tail q < sz"
    using assms by (simp add: ring_def)
  then show ?thesis using assms by (simp add: ring_def in_bounds_def)
qed


lemma ring_enqueue:
  fixes q :: "'a queue" and e :: 'a
  assumes "ring sz q xs"
  defines "q' \<equiv> q\<lparr>fifo := (fifo q)[nat (tail q) := Some e], tail := (tail q + 1) mod sz\<rparr>"
  shows "enqueue q sz (Some e) = Inr (if Suc (length xs) < length (fifo q) then 0 else 1, q')"
    and "rotate (nat (head q)) (fifo q') =
           map Some (xs @ [e]) @ replicate (length (fifo q) - Suc (length xs)) None"
    and "Suc (length xs) < length (fifo q) \<Longrightarrow> ring sz q' (xs @ [e])"
proof -
  define C where "C = length (fifo q)"
  define n where "n = length xs"
  from assms(1) obtain h where h: "head q = int h" and hlt: "h < C"
    by (auto simp: ring_def in_bounds_def C_def elim: nonneg_int_cases)
  have sz: "sz = int C" and n: "n < C"
    and tl: "tail q = int ((h + n) mod C)"
    and rot: "rotate h (fifo q) = map Some xs @ replicate (C - n) None"
    using assms(1) by (simp_all add: ring_def h C_def n_def zmod_int)
  have pos: "0 < C" using n by simp
  have tb: "in_bounds (fifo q) (tail q)"
    using assms(1) by (rule ring_tail_bounds)
  have crem: "c_rem (tail q + 1) sz = (tail q + 1) mod sz"
    using tb pos by (intro c_rem_nonneg) (simp_all add: in_bounds_def sz)
  have tl': "(tail q + 1) mod sz = int ((h + Suc n) mod C)"
  proof -
    have "(tail q + 1) mod sz = (int (h + n) mod int C + 1) mod int C"
      by (simp add: tl sz zmod_int)
    also have "\<dots> = (int (h + n) + 1) mod int C"
      by (simp add: mod_add_left_eq)
    also have "\<dots> = int (h + Suc n) mod int C"
      by (simp add: algebra_simps)
    finally show ?thesis by (simp only: zmod_int)
  qed
  have "Suc (C - Suc (length xs)) = C - length xs"
    using n by (intro Suc_diff_Suc) (simp add: n_def)
  then have rep: "replicate (C - length xs) (None :: 'a option) =
      None # replicate (C - Suc (length xs)) None"
    by (simp only: replicate_Suc flip: replicate_Suc)
  have "rotate h (fifo q') = (rotate h (fifo q))[n := Some e]"
    using n rotate_update [of n "fifo q" h "Some e"] by (simp add: q'_def tl C_def)
  also have "\<dots> = map Some (xs @ [e]) @ replicate (C - Suc n) None"
    by (simp add: rot rep list_update_append n_def)
  finally have rot': "rotate h (fifo q') = map Some (xs @ [e]) @ replicate (C - Suc n) None" .
  then show "rotate (nat (head q)) (fifo q') =
           map Some (xs @ [e]) @ replicate (length (fifo q) - Suc (length xs)) None"
    by (simp add: h C_def n_def)
  have len': "length (fifo q') = C" by (simp add: q'_def C_def)
  have tb': "in_bounds (fifo q') (tail q')"
    using pos by (simp add: in_bounds_def q'_def tl' flip: C_def)
  have slot: "fifo q' ! nat (tail q') = (if Suc n < C then None else Some (hd (xs @ [e])))"
  proof (cases "Suc n < C")
    case True
    have "fifo q' ! ((h + Suc n) mod C) = rotate h (fifo q') ! Suc n"
      using True by (simp add: nth_rotate len')
    also have "\<dots> = None"
      using True by (simp add: rot' nth_append n_def)
    finally show ?thesis using True by (simp add: q'_def tl')
  next
    case False
    with n have eq: "Suc n = C" by simp
    have "fifo q' ! ((h + 0) mod C) = rotate h (fifo q') ! 0"
      using pos by (simp add: nth_rotate len')
    also have "\<dots> = Some (hd (xs @ [e]))"
      by (cases xs) (simp_all add: rot')
    finally have "fifo q' ! h = Some (hd (xs @ [e]))" using hlt by simp
    moreover have "(h + Suc n) mod C = h" using hlt by (simp add: eq)
    ultimately show ?thesis using False by (simp add: q'_def tl')
  qed
  have "sz \<noteq> 0" using pos by (simp add: sz)
  then show "enqueue q sz (Some e) = Inr (if Suc (length xs) < length (fifo q) then 0 else 1, q')"
    using tb tb' slot
    by (simp add: enqueue_def Let_def crem q'_def C_def n_def)
  show "ring sz q' (xs @ [e])" if "Suc (length xs) < length (fifo q)"
  proof -
    have hq': "head q' = int h" by (simp add: q'_def h)
    have "tail q' = int ((h + Suc n) mod C)" by (simp add: q'_def tl')
    also have "\<dots> = (int h + int (Suc n)) mod int C"
      by (simp only: zmod_int of_nat_add)
    finally have "tail q' = (head q' + int (length (xs @ [e]))) mod sz"
      by (simp add: hq' sz n_def)
    moreover have "rotate (nat (head q')) (fifo q') =
        map Some (xs @ [e]) @ replicate (length (fifo q') - length (xs @ [e])) None"
      using rot' by (simp add: q'_def h C_def n_def)
    moreover have "in_bounds (fifo q') (head q')"
      using hlt by (simp add: in_bounds_def q'_def h C_def)
    ultimately show ?thesis
      using that by (simp add: ring_def sz C_def q'_def)
  qed
qed


lemma ring_dequeue_Nil:
  assumes "ring sz q []"
  shows "dequeue q sz = Inr (None, q)"
  using assms ring_head_slot[OF assms]
  by (intro dequeue_on_empty_head) (simp_all add: ring_def)

lemma ring_remove_head:
  fixes q :: "'a queue"
  assumes "ring sz q (x # xs)"
  defines "q' \<equiv> q\<lparr>fifo := (fifo q)[nat (head q) := None], head := (head q + 1) mod sz\<rparr>"
  shows "dequeue q sz = Inr (Some x, q')"
    and "evict q sz = Inr q'"
    and "ring sz q' xs"
proof -
  define C where "C = length (fifo q)"
  define n where "n = length xs"
  from assms(1) obtain h where h: "head q = int h" and hlt: "h < C"
    by (auto simp: ring_def in_bounds_def C_def elim: nonneg_int_cases)
  have sz: "sz = int C" and n: "Suc n < C"
    and rot: "rotate h (fifo q) = Some x # map Some xs @ replicate (C - Suc n) None"
    using assms(1) by (simp_all add: ring_def h C_def n_def)
  have "tail q = (int h + int (Suc n)) mod int C"
    using assms(1) by (simp add: ring_def h C_def n_def)
  then have tl: "tail q = int ((h + Suc n) mod C)"
    by (simp only: zmod_int of_nat_add)
  have pos: "0 < C" using n by simp
  have hb: "in_bounds (fifo q) (head q)"
    using assms(1) by (simp add: ring_def)
  have slot: "fifo q ! nat (head q) = Some x"
    using ring_head_slot[OF assms(1)] by simp
  have "(h + Suc n) mod C \<noteq> (h + 0) mod C"
    using mod_shift_inj[of "Suc n" C 0 h] n by auto
  then have ne: "head q \<noteq> tail q"
    using hlt by (simp add: h tl)
  have crem: "c_rem (head q + 1) sz = (head q + 1) mod sz"
    using pos by (intro c_rem_nonneg) (simp_all add: h sz)
  have "sz \<noteq> 0" using pos by (simp add: sz)
  then show "dequeue q sz = Inr (Some x, q')"
    using hb slot ne by (simp add: dequeue_def Let_def crem q'_def)
  show "evict q sz = Inr q'"
    using hb \<open>sz \<noteq> 0\<close> by (simp add: evict_def crem q'_def)
  have hd': "head q' = int (Suc h mod C)"
    by (simp add: q'_def h sz zmod_int add.commute)
  have "rotate h (fifo q') = (rotate h (fifo q))[0 := None]"
    using pos hlt rotate_update [of 0 "fifo q" h None] by (simp add: q'_def h C_def)
  then have "rotate (Suc h) (fifo q') = map Some xs @ replicate (C - Suc n) None @ [None]"
    by (simp add: rot)
  also have "replicate (C - Suc n) None @ [None :: 'a option] = replicate (C - n) None"
  proof -
    have "Suc (C - Suc n) = C - n" using n by (intro Suc_diff_Suc) simp
    then have "replicate (C - n) (None :: 'a option) = None # replicate (C - Suc n) None"
      by (simp only: replicate_Suc flip: replicate_Suc)
    then show ?thesis by (simp only: replicate_append_same)
  qed
  finally have "rotate (Suc h mod C) (fifo q') = map Some xs @ replicate (C - n) None"
    using rotate_conv_mod [of "Suc h" "fifo q'"] by (simp add: q'_def C_def)
  then have rot': "rotate (nat (head q')) (fifo q') =
      map Some xs @ replicate (length (fifo q') - length xs) None"
    by (simp add: hd' n_def) (simp add: q'_def C_def)
  have "tail q' = int ((h + Suc n) mod C)" by (simp add: q'_def tl)
  also have "\<dots> = int ((Suc h mod C + n) mod C)"
    by (simp add: mod_add_left_eq)
  also have "\<dots> = (head q' + int (length xs)) mod sz"
    by (simp only: hd' sz n_def zmod_int of_nat_add)
  finally have tl': "tail q' = (head q' + int (length xs)) mod sz" .
  have "in_bounds (fifo q') (head q')"
    using pos by (simp add: in_bounds_def hd') (simp add: q'_def C_def)
  with rot' tl' n show "ring sz q' xs"
    by (simp add: ring_def sz n_def) (simp add: q'_def C_def)
qed

lemma occupied_Cons: "occupied (p # arr) = (if p \<noteq> None then 1 else 0) + occupied arr"
  by (simp add: occupied_def)

lemma count_loop_drop:
  "i \<le> length arr \<Longrightarrow>
   count_loop arr (int (length arr)) (int i) acc = Inr (acc + int (occupied (drop i arr)))"
proof (induction "length arr - i" arbitrary: i acc)
  case 0
  then have "i = length arr" by simp
  then show ?case
    by (subst count_loop.simps) (simp add: occupied_def)
next
  case (Suc k)
  then have lt: "i < length arr" by simp
  have step: "count_loop arr (int (length arr)) (int i) acc =
      count_loop arr (int (length arr)) (int (Suc i))
        (if arr ! i \<noteq> None then acc + 1 else acc)"
    using lt by (subst count_loop.simps) (simp add: in_bounds_def add.commute)
  have "k = length arr - Suc i" using Suc.hyps(2) by simp
  moreover have "Suc i \<le> length arr" using lt by simp
  ultimately have "count_loop arr (int (length arr)) (int (Suc i))
        (if arr ! i \<noteq> None then acc + 1 else acc) =
      Inr ((if arr ! i \<noteq> None then acc + 1 else acc) + int (occupied (drop (Suc i) arr)))"
    by (rule Suc.hyps(1))
  moreover have "drop i arr = arr ! i # drop (Suc i) arr"
    using lt by (simp add: Cons_nth_drop_Suc)
  ultimately show ?case
    by (simp add: step occupied_Cons)
qed

lemma len_occupied: "len arr (int (length arr)) = Inr (int (occupied arr))"
  using count_loop_drop [of 0 arr 0] by (simp add: len_def)

lemma occupied_rotate: "occupied (rotate n arr) = occupied arr"
proof -
  define k where "k = n mod length arr"
  have "filter (\<lambda>p. p \<noteq> None) arr =
        filter (\<lambda>p. p \<noteq> None) (take k arr) @ filter (\<lambda>p. p \<noteq> None) (drop k arr)"
    by (simp flip: filter_append)
  then show ?thesis
    by (simp add: occupied_def rotate_drop_take k_def)
qed

lemma ring_occupied:
  assumes "ring sz q xs"
  shows "occupied (fifo q) = length xs"
proof -
  have "occupied (fifo q) = occupied (rotate (nat (head q)) (fifo q))"
    by (simp add: occupied_rotate)
  also have "\<dots> = length xs"
    using assms by (simp add: ring_def occupied_def)
  finally show ?thesis .
qed

subsection \<open>Sequences of calls on a well-formed queue\<close>

lemma ring_init: "0 < n \<Longrightarrow> ring (int n) (init_queue n) []"
  by (simp add: ring_def init_queue_def in_bounds_def)

lemma ring_lengths:
  assumes "ring sz q xs"
  shows "sz = int (length (fifo q))" and "length xs < length (fifo q)"
    and "in_bounds (fifo q) (head q)"
  using assms by (simp_all add: ring_def)

lemma ring_head_eq_tail:
  assumes "ring sz q xs"
  shows "head q = tail q \<longleftrightarrow> xs = []"
proof -
  define C where "C = length (fifo q)"
  from assms obtain h where h: "head q = int h" and hlt: "h < C"
    by (auto simp: ring_def in_bounds_def C_def elim: nonneg_int_cases)
  have n: "length xs < C" using assms by (simp add: ring_def C_def)
  have "tail q = (int h + int (length xs)) mod int C"
    using assms by (simp add: ring_def h C_def)
  then have tl: "tail q = int ((h + length xs) mod C)"
    by (simp only: zmod_int of_nat_add)
  have "(h + length xs) mod C = (h + 0) mod C \<longleftrightarrow> length xs = 0"
    using mod_shift_inj[of "length xs" C 0 h] n by auto
  then show ?thesis using hlt by (auto simp: h tl)
qed

lemma run_enqueues_ring:
  assumes "ring sz q xs" and "length xs + length es < length (fifo q)"
  shows "\<exists>q'. run sz q (map Enqueue es) = Inr (replicate (length es) (Status 0), q') \<and>
              ring sz q' (xs @ es) \<and> head q' = head q \<and> length (fifo q') = length (fifo q)"
  using assms
proof (induction es arbitrary: q xs)
  case Nil
  then show ?case by simp
next
  case (Cons e es)
  define q1 where "q1 = q\<lparr>fifo := (fifo q)[nat (tail q) := Some e], tail := (tail q + 1) mod sz\<rparr>"
  have lt: "Suc (length xs) < length (fifo q)" using Cons.prems by simp
  have enq: "enqueue q sz (Some e) = Inr (0, q1)"
    using ring_enqueue(1)[OF Cons.prems(1), of e] lt by (simp add: q1_def)
  have r1: "ring sz q1 (xs @ [e])"
    using ring_enqueue(3)[OF Cons.prems(1) lt, of e] by (simp add: q1_def)
  have "length (xs @ [e]) + length es < length (fifo q1)"
    using Cons.prems by (simp add: q1_def)
  from Cons.IH[OF r1 this] obtain q' where
    "run sz q1 (map Enqueue es) = Inr (replicate (length es) (Status 0), q')"
    "ring sz q' (xs @ e # es)" "head q' = head q1" "length (fifo q') = length (fifo q1)"
    by auto
  then show ?case using enq by (auto simp: q1_def)
qed

lemma run_enqueues_no_overflow:
  assumes "ring sz q xs" and "run sz q (map Enqueue es) = Inr (outs, q')"
    and "Status 1 \<notin> set outs"
  shows "ring sz q' (xs @ es)"
  using assms
proof (induction es arbitrary: q xs outs)
  case Nil
  then show ?case by simp
next
  case (Cons e es)
  define q1 where "q1 = q\<lparr>fifo := (fifo q)[nat (tail q) := Some e], tail := (tail q + 1) mod sz\<rparr>"
  have enq: "enqueue q sz (Some e) =
      Inr (if Suc (length xs) < length (fifo q) then 0 else 1, q1)"
    using ring_enqueue(1)[OF Cons.prems(1), of e] by (simp add: q1_def)
  from Cons.prems(2) enq obtain outs1 where
    run1: "run sz q1 (map Enqueue es) = Inr (outs1, q')" and
    outs: "outs = Status (if Suc (length xs) < length (fifo q) then 0 else 1) # outs1"
    by (auto split: sum.splits)
  from outs Cons.prems(3) have lt: "Suc (length xs) < length (fifo q)" and "Status 1 \<notin> set outs1"
    by (auto split: if_splits)
  have r1: "ring sz q1 (xs @ [e])"
    using ring_enqueue(3)[OF Cons.prems(1) lt, of e] by (simp add: q1_def)
  from Cons.IH[OF r1 run1 \<open>Status 1 \<notin> set outs1\<close>] show ?case by simp
qed

lemma run_dequeues_ring:
  assumes "ring sz q xs"
  shows "\<exists>q'. run sz q (replicate (length xs) Dequeue) =
                Inr (map (\<lambda>x. Departure (Some x)) xs, q') \<and> ring sz q' []"
  using assms
proof (induction xs arbitrary: q)
  case Nil
  then show ?case by simp
next
  case (Cons x xs)
  define q1 where "q1 = q\<lparr>fifo := (fifo q)[nat (head q) := None], head := (head q + 1) mod sz\<rparr>"
  have deq: "dequeue q sz = Inr (Some x, q1)" and r1: "ring sz q1 xs"
    using ring_remove_head(1,3)[OF Cons.prems] by (simp_all add: q1_def)
  from Cons.IH[OF r1] obtain q' where
    "run sz q1 (replicate (length xs) Dequeue) = Inr (map (\<lambda>x. Departure (Some x)) xs, q')"
    "ring sz q' []" by auto
  then show ?case using deq by auto
qed


subsection \<open>The truncation loop\<close>

lemma occupied_clear_Suc:
  "n < length arr \<Longrightarrow> arr ! n \<noteq> None \<Longrightarrow> Suc (occupied (arr[n := None])) = occupied arr"
proof (induction arr arbitrary: n)
  case Nil
  then show ?case by simp
next
  case (Cons p arr)
  show ?case
  proof (cases n)
    case 0
    with Cons.prems show ?thesis by (simp add: occupied_Cons)
  next
    case (Suc m)
    with Cons.prems have "Suc (occupied (arr[m := None])) = occupied arr"
      by (intro Cons.IH) simp_all
    with Suc show ?thesis by (simp add: occupied_Cons)
  qed
qed

lemma occupied_clear_le: "occupied (arr[n := None]) \<le> occupied arr"
proof (induction arr arbitrary: n)
  case Nil
  then show ?case by simp
next
  case (Cons p arr)
  then show ?case by (cases n) (simp_all add: occupied_Cons)
qed

lemma in_bounds_nat: "in_bounds arr i \<Longrightarrow> nat i < length arr"
  unfolding in_bounds_def by linarith

lemma in_bounds_pos: "in_bounds arr i \<Longrightarrow> 0 < int (length arr)"
  unfolding in_bounds_def by linarith

lemma evict_in_bounds:
  assumes "sz = int (length (fifo q))" and "in_bounds (fifo q) (head q)"
  shows "evict q sz =
           Inr (q\<lparr>fifo := (fifo q)[nat (head q) := None], head := (head q + 1) mod sz\<rparr>)"
proof -
  have pos: "0 < sz" using assms in_bounds_pos by auto
  have "0 \<le> head q + 1" using assms(2) by (simp add: in_bounds_def)
  then have "c_rem (head q + 1) sz = (head q + 1) mod sz"
    using pos by (rule c_rem_nonneg)
  moreover have "sz \<noteq> 0" using pos by simp
  ultimately show ?thesis using assms(2) by (simp add: evict_def)
qed

lemma evict_keeps:
  assumes "sz = int (length (fifo q))" and "in_bounds (fifo q) (head q)"
    and "evict q sz = Inr q'"
  shows "sz = int (length (fifo q'))" and "in_bounds (fifo q') (head q')"
    and "tail q' = tail q" and "occupied (fifo q') \<le> occupied (fifo q)"
    and "i < length (fifo q) \<Longrightarrow> fifo q' ! i = None \<or> fifo q' ! i = fifo q ! i"
proof -
  have q': "q' = q\<lparr>fifo := (fifo q)[nat (head q) := None], head := (head q + 1) mod sz\<rparr>"
    using evict_in_bounds[OF assms(1,2)] assms(3) by simp
  have pos: "0 < sz" using assms(1,2) in_bounds_pos by auto
  show "sz = int (length (fifo q'))" by (simp add: q' assms(1))
  show "in_bounds (fifo q') (head q')"
    using pos by (simp add: q' in_bounds_def flip: assms(1))
  show "tail q' = tail q" by (simp add: q')
  show "occupied (fifo q') \<le> occupied (fifo q)" by (simp add: q' occupied_clear_le)
  show "fifo q' ! i = None \<or> fifo q' ! i = fifo q ! i" if "i < length (fifo q)"
    using that in_bounds_nat[OF assms(2)]
    by (cases "i = nat (head q)") (simp_all add: q')
qed


lemma truncate_loop_general:
  assumes "sz = int (length (fifo q))" and "in_bounds (fifo q) (head q)"
    and "queue_length = int (occupied (fifo q))"
  shows "\<exists>k q'. truncate_loop q sz limit queue_length = Inr q' \<and>
           evictions k sz q = Inr q' \<and>
           occupied (fifo q') + k = occupied (fifo q) \<and>
           (int (occupied (fifo q')) \<le> limit \<or> fifo q' ! nat (head q') = None) \<and>
           (\<forall>j<k. \<exists>qj. evictions j sz q = Inr qj \<and>
                  limit < int (occupied (fifo qj)) \<and> fifo qj ! nat (head qj) \<noteq> None)"
  using assms
proof (induction q sz limit queue_length rule: truncate_loop.induct)
  case (1 q sz limit queue_length)
  show ?case
  proof (cases "fifo q ! nat (head q) \<noteq> None \<and> queue_length > limit")
    case False
    then have "truncate_loop q sz limit queue_length = Inr q"
      using "1.prems"(2) by (subst truncate_loop.simps) auto
    moreover have "evictions 0 sz q = Inr q" by simp
    moreover have "int (occupied (fifo q)) \<le> limit \<or> fifo q ! nat (head q) = None"
      using False "1.prems"(3) by auto
    ultimately show ?thesis by (intro exI[of _ 0] exI[of _ q]) simp
  next
    case True
    define q1 where
      "q1 = q\<lparr>fifo := (fifo q)[nat (head q) := None], head := (head q + 1) mod sz\<rparr>"
    have e1: "evict q sz = Inr q1"
      using evict_in_bounds[OF "1.prems"(1,2)] by (simp add: q1_def)
    note k1 = evict_keeps(1,2)[OF "1.prems"(1,2) e1]
    have "nat (head q) < length (fifo q)"
      using "1.prems"(2) by (rule in_bounds_nat)
    then have occ1: "Suc (occupied (fifo q1)) = occupied (fifo q)"
      using True by (simp add: q1_def occupied_clear_Suc)
    then have ql1: "queue_length - 1 = int (occupied (fifo q1))"
      using "1.prems"(3) by simp
    have unfold: "truncate_loop q sz limit queue_length =
        truncate_loop q1 sz limit (queue_length - 1)"
      using True "1.prems"(2) e1 by (subst truncate_loop.simps) simp
    from "1.IH"[OF _ True e1 k1 ql1] "1.prems"(2)
    obtain k q' where
      r: "truncate_loop q1 sz limit (queue_length - 1) = Inr q'"
         "evictions k sz q1 = Inr q'"
         "int (occupied (fifo q')) \<le> limit \<or> fifo q' ! nat (head q') = None" and
      cnt: "occupied (fifo q') + k = occupied (fifo q1)" and
      before: "\<forall>j<k. \<exists>qj. evictions j sz q1 = Inr qj \<and>
                  limit < int (occupied (fifo qj)) \<and> fifo qj ! nat (head qj) \<noteq> None"
      by auto
    have "\<exists>qj. evictions j sz q = Inr qj \<and>
             limit < int (occupied (fifo qj)) \<and> fifo qj ! nat (head qj) \<noteq> None"
      if "j < Suc k" for j
    proof (cases j)
      case 0
      then show ?thesis using True "1.prems"(3) by simp
    next
      case (Suc j')
      then show ?thesis using that before e1 by simp
    qed
    moreover have "occupied (fifo q') + Suc k = occupied (fifo q)"
      using cnt occ1 by simp
    ultimately show ?thesis
      using r e1 unfold by (intro exI[of _ "Suc k"] exI[of _ q']) simp
  qed
qed

lemma ring_truncate_loop:
  assumes "ring sz q xs"
  shows "\<exists>q'. truncate_loop q sz limit queue_length = Inr q' \<and>
              ring sz q' (drop (nat (queue_length - limit)) xs)"
  using assms
proof (induction xs arbitrary: q queue_length)
  case Nil
  have "fifo q ! nat (head q) = None"
    using ring_head_slot[OF Nil] by simp
  then have "truncate_loop q sz limit queue_length = Inr q"
    using ring_lengths(3)[OF Nil] by (subst truncate_loop.simps) simp
  then show ?case using Nil by simp
next
  case (Cons x xs)
  have slot: "fifo q ! nat (head q) = Some x"
    using ring_head_slot[OF Cons.prems] by simp
  note hb = ring_lengths(3)[OF Cons.prems]
  show ?case
  proof (cases "queue_length > limit")
    case False
    then have "truncate_loop q sz limit queue_length = Inr q"
      using hb by (subst truncate_loop.simps) simp
    then show ?thesis using Cons.prems False by simp
  next
    case True
    define q1 where
      "q1 = q\<lparr>fifo := (fifo q)[nat (head q) := None], head := (head q + 1) mod sz\<rparr>"
    have e1: "evict q sz = Inr q1" and r1: "ring sz q1 xs"
      using ring_remove_head(2,3)[OF Cons.prems] by (simp_all add: q1_def)
    have unfold: "truncate_loop q sz limit queue_length =
        truncate_loop q1 sz limit (queue_length - 1)"
      using True hb slot e1 by (subst truncate_loop.simps) simp
    have "nat (queue_length - limit) = Suc (nat (queue_length - 1 - limit))"
      using True by simp
    then have "drop (nat (queue_length - limit)) (x # xs) = drop (nat (queue_length - 1 - limit)) xs"
      by simp
    with Cons.IH[OF r1, of "queue_length - 1"] unfold show ?thesis by simp
  qed
qed

subsection \<open>Calls that keep the queue well formed\<close>

lemma ring_check_and_truncate:
  assumes "ring sz q xs"
  shows "\<exists>q'. check_and_truncate q sz limit = Inr q' \<and>
              ring sz q' (drop (nat (int (length xs) - limit)) xs)"
proof -
  have "len (fifo q) sz = Inr (int (length xs))"
    using len_occupied[of "fifo q"] ring_occupied[OF assms] ring_lengths(1)[OF assms] by simp
  then show ?thesis
    using ring_truncate_loop[OF assms, of limit "int (length xs)"]
    by (simp add: check_and_truncate_def)
qed

lemma step_ring:
  assumes "ring sz q xs" and "step sz q c = Inr (out, q')" and "out \<noteq> Status 1"
  shows "\<exists>ys. ring sz q' ys"
proof (cases c)
  case (Enqueue e)
  define q1 where "q1 = q\<lparr>fifo := (fifo q)[nat (tail q) := Some e], tail := (tail q + 1) mod sz\<rparr>"
  have "enqueue q sz (Some e) = Inr (if Suc (length xs) < length (fifo q) then 0 else 1, q1)"
    using ring_enqueue(1)[OF assms(1), of e] by (simp add: q1_def)
  with assms(2,3) Enqueue have "Suc (length xs) < length (fifo q)" and "q' = q1"
    by (auto split: if_splits)
  then show ?thesis
    using ring_enqueue(3)[OF assms(1), of e] by (auto simp: q1_def)
next
  case Dequeue
  show ?thesis
  proof (cases xs)
    case Nil
    then show ?thesis
      using assms(1,2) Dequeue ring_dequeue_Nil[of sz q] by auto
  next
    case (Cons x xs')
    then show ?thesis
      using assms(1,2) Dequeue ring_remove_head(1,3)[of sz q x xs'] by auto
  qed
next
  case (Enforce limit)
  then show ?thesis
    using assms(2) ring_check_and_truncate[OF assms(1), of limit]
    by (auto split: sum.splits)
qed

lemma run_ring:
  assumes "ring sz q xs" and "run sz q calls = Inr (outs, q')" and "Status 1 \<notin> set outs"
  shows "\<exists>ys. ring sz q' ys"
  using assms
proof (induction calls arbitrary: q xs outs)
  case Nil
  then show ?case by auto
next
  case (Cons c calls)
  from Cons.prems(2) obtain out q1 outs1 where
    s: "step sz q c = Inr (out, q1)" and r: "run sz q1 calls = Inr (outs1, q')"
    and o: "outs = out # outs1"
    by (auto split: sum.splits)
  from o Cons.prems(3) have "out \<noteq> Status 1" and no: "Status 1 \<notin> set outs1" by auto
  from step_ring[OF Cons.prems(1) s this(1)] obtain ys where "ring sz q1 ys" ..
  from Cons.IH[OF this r no] show ?case .
qed

subsection \<open>The truncation on any state\<close>


lemma check_and_truncate_general:
  assumes "sz = int (length (fifo q))" and "in_bounds (fifo q) (head q)"
  shows "\<exists>k q'. check_and_truncate q sz limit = Inr q' \<and>
           evictions k sz q = Inr q' \<and>
           occupied (fifo q') + k = occupied (fifo q) \<and>
           (int (occupied (fifo q')) \<le> limit \<or> fifo q' ! nat (head q') = None) \<and>
           (\<forall>j<k. \<exists>qj. evictions j sz q = Inr qj \<and>
                  limit < int (occupied (fifo qj)) \<and> fifo qj ! nat (head qj) \<noteq> None)"
proof -
  have "len (fifo q) sz = Inr (int (occupied (fifo q)))"
    using len_occupied[of "fifo q"] assms(1) by simp
  then have "check_and_truncate q sz limit = truncate_loop q sz limit (int (occupied (fifo q)))"
    by (simp add: check_and_truncate_def)
  with truncate_loop_general[OF assms refl, of limit] show ?thesis by simp
qed


subsection \<open>Arrays that hold a queue in order from the head\<close>

lemma queue_after_append: "queue_after xs (cs @ ds) = queue_after (queue_after xs cs) ds"
  by (induction cs arbitrary: xs) simp_all

lemma ring_holds: "ring sz q xs \<Longrightarrow> holds_from_head sz q xs"
  by (simp add: ring_def holds_from_head_def)

lemma holds_head_slot:
  assumes "holds_from_head sz q xs"
  shows "fifo q ! nat (head q) = (case xs of [] \<Rightarrow> None | x # _ \<Rightarrow> Some x)"
proof -
  have hb: "in_bounds (fifo q) (head q)" using assms by (simp add: holds_from_head_def)
  have h: "nat (head q) < length (fifo q)" using hb by (rule in_bounds_nat)
  then have pos: "0 < length (fifo q)" by (cases "fifo q") simp_all
  have "fifo q ! nat (head q) = rotate (nat (head q)) (fifo q) ! 0"
    using h nth_rotate[of 0 "fifo q" "nat (head q)"] by (cases "fifo q") simp_all
  also have "rotate (nat (head q)) (fifo q) =
      map Some xs @ replicate (length (fifo q) - length xs) None"
    using assms by (simp add: holds_from_head_def)
  also have "\<dots> ! 0 = (case xs of [] \<Rightarrow> None | x # _ \<Rightarrow> Some x)"
    using pos by (cases xs) simp_all
  finally show ?thesis .
qed

lemma holds_occupied:
  assumes "holds_from_head sz q xs"
  shows "occupied (fifo q) = length xs"
proof -
  have "occupied (fifo q) = occupied (rotate (nat (head q)) (fifo q))"
    by (simp add: occupied_rotate)
  also have "\<dots> = length xs"
    using assms by (simp add: holds_from_head_def occupied_def)
  finally show ?thesis .
qed

lemma holds_evict:
  fixes q :: "'a queue"
  assumes "holds_from_head sz q (x # xs)"
  defines "q' \<equiv> q\<lparr>fifo := (fifo q)[nat (head q) := None], head := (head q + 1) mod sz\<rparr>"
  shows "evict q sz = Inr q'" and "holds_from_head sz q' xs"
proof -
  define C where "C = length (fifo q)"
  define n where "n = length xs"
  have sz0: "sz = int (length (fifo q))" and hb: "in_bounds (fifo q) (head q)"
    using assms(1) by (simp_all add: holds_from_head_def)
  from hb obtain h where h: "head q = int h" and hlt: "h < C"
    by (auto simp: in_bounds_def C_def elim: nonneg_int_cases)
  have sz: "sz = int C" and n: "Suc n \<le> C"
    and rot: "rotate h (fifo q) = Some x # map Some xs @ replicate (C - Suc n) None"
    using assms(1) by (simp_all add: holds_from_head_def h C_def n_def)
  have pos: "0 < C" using n by simp
  show "evict q sz = Inr q'"
    using evict_in_bounds[OF sz0 hb] by (simp add: q'_def)
  have hd': "head q' = int (Suc h mod C)"
    by (simp add: q'_def h sz zmod_int add.commute)
  have "rotate h (fifo q') = (rotate h (fifo q))[0 := None]"
    using pos hlt rotate_update [of 0 "fifo q" h None] by (simp add: q'_def h C_def)
  then have "rotate (Suc h) (fifo q') = map Some xs @ replicate (C - Suc n) None @ [None]"
    by (simp add: rot)
  also have "replicate (C - Suc n) None @ [None :: 'a option] = replicate (C - n) None"
  proof -
    have "Suc (C - Suc n) = C - n" using n by (intro Suc_diff_Suc) simp
    then have "replicate (C - n) (None :: 'a option) = None # replicate (C - Suc n) None"
      by (simp only: replicate_Suc flip: replicate_Suc)
    then show ?thesis by (simp only: replicate_append_same)
  qed
  finally have "rotate (Suc h mod C) (fifo q') = map Some xs @ replicate (C - n) None"
    using rotate_conv_mod [of "Suc h" "fifo q'"] by (simp add: q'_def C_def)
  then have rot': "rotate (nat (head q')) (fifo q') =
      map Some xs @ replicate (length (fifo q') - length xs) None"
    by (simp add: hd' n_def) (simp add: q'_def C_def)
  have "in_bounds (fifo q') (head q')"
    using pos by (simp add: in_bounds_def hd') (simp add: q'_def C_def)
  with rot' n show "holds_from_head sz q' xs"
    by (simp add: holds_from_head_def sz n_def) (simp add: q'_def C_def)
qed

lemma holds_truncate_loop:
  assumes "holds_from_head sz q xs"
  shows "\<exists>q'. truncate_loop q sz limit queue_length = Inr q' \<and>
              holds_from_head sz q' (drop (nat (queue_length - limit)) xs)"
  using assms
proof (induction xs arbitrary: q queue_length)
  case Nil
  have hb: "in_bounds (fifo q) (head q)" using Nil by (simp add: holds_from_head_def)
  have "fifo q ! nat (head q) = None"
    using holds_head_slot[OF Nil] by simp
  then have "truncate_loop q sz limit queue_length = Inr q"
    using hb by (subst truncate_loop.simps) simp
  then show ?case using Nil by simp
next
  case (Cons x xs)
  have slot: "fifo q ! nat (head q) = Some x"
    using holds_head_slot[OF Cons.prems] by simp
  have hb: "in_bounds (fifo q) (head q)" using Cons.prems by (simp add: holds_from_head_def)
  show ?case
  proof (cases "queue_length > limit")
    case False
    then have "truncate_loop q sz limit queue_length = Inr q"
      using hb by (subst truncate_loop.simps) simp
    then show ?thesis using Cons.prems False by simp
  next
    case True
    define q1 where
      "q1 = q\<lparr>fifo := (fifo q)[nat (head q) := None], head := (head q + 1) mod sz\<rparr>"
    have e1: "evict q sz = Inr q1" and r1: "holds_from_head sz q1 xs"
      using holds_evict[OF Cons.prems] by (simp_all add: q1_def)
    have unfold: "truncate_loop q sz limit queue_length =
        truncate_loop q1 sz limit (queue_length - 1)"
      using True hb slot e1 by (subst truncate_loop.simps) simp
    have "nat (queue_length - limit) = Suc (nat (queue_length - 1 - limit))"
      using True by simp
    then have "drop (nat (queue_length - limit)) (x # xs) = drop (nat (queue_length - 1 - limit)) xs"
      by simp
    with Cons.IH[OF r1, of "queue_length - 1"] unfold show ?thesis by simp
  qed
qed

lemma holds_check_and_truncate:
  assumes "holds_from_head sz q xs"
  shows "\<exists>q'. check_and_truncate q sz limit = Inr q' \<and>
              holds_from_head sz q' (drop (nat (int (length xs) - limit)) xs)"
proof -
  have "sz = int (length (fifo q))" using assms by (simp add: holds_from_head_def)
  then have "len (fifo q) sz = Inr (int (length xs))"
    using len_occupied[of "fifo q"] holds_occupied[OF assms] by simp
  then show ?thesis
    using holds_truncate_loop[OF assms, of limit "int (length xs)"]
    by (simp add: check_and_truncate_def)
qed

lemma ring_enqueue_overflow:
  fixes q :: "'a queue" and e :: 'a
  assumes "ring sz q xs" and "Suc (length xs) = length (fifo q)"
  defines "q' \<equiv> q\<lparr>fifo := (fifo q)[nat (tail q) := Some e], tail := (tail q + 1) mod sz\<rparr>"
  shows "enqueue q sz (Some e) = Inr (1, q')" and "holds_from_head sz q' (xs @ [e])"
    and "head q' = tail q'" and "occupied (fifo q') = length (fifo q)"
proof -
  show "enqueue q sz (Some e) = Inr (1, q')"
    using ring_enqueue(1)[OF assms(1), of e] assms(2) by (simp add: q'_def)
  have sz: "sz = int (length (fifo q))" and hb: "in_bounds (fifo q) (head q)"
    using assms(1) by (simp_all add: ring_def)
  have "rotate (nat (head q)) (fifo q') =
      map Some (xs @ [e]) @ replicate (length (fifo q) - Suc (length xs)) None"
    using ring_enqueue(2)[OF assms(1), of e] by (simp add: q'_def)
  moreover have "in_bounds (fifo q') (head q')"
    using hb by (simp add: in_bounds_def q'_def)
  ultimately show h: "holds_from_head sz q' (xs @ [e])"
    using sz assms(2) by (simp add: holds_from_head_def) (simp add: q'_def)
  from holds_occupied[OF h] assms(2) show "occupied (fifo q') = length (fifo q)" by simp
  have pos: "0 < sz" using sz hb in_bounds_pos by auto
  have "tail q = (head q + int (length xs)) mod sz"
    using assms(1) by (simp add: ring_def)
  then have "(tail q + 1) mod sz = (head q + int (length xs) + 1) mod sz"
    by (simp add: mod_add_left_eq)
  also have "head q + int (length xs) + 1 = head q + sz"
    using assms(2) sz by simp
  also have "(head q + sz) mod sz = head q"
    using hb sz by (simp add: in_bounds_def)
  finally show "head q' = tail q'" by (simp add: q'_def)
qed


lemma step_abs_step:
  assumes "ring sz q xs" and "step sz q c = Inr (out, q')" and "out \<noteq> Status 1"
  shows "ring sz q' (abs_step xs c)"
proof (cases c)
  case (Enqueue e)
  define q1 where "q1 = q\<lparr>fifo := (fifo q)[nat (tail q) := Some e], tail := (tail q + 1) mod sz\<rparr>"
  have "enqueue q sz (Some e) = Inr (if Suc (length xs) < length (fifo q) then 0 else 1, q1)"
    using ring_enqueue(1)[OF assms(1), of e] by (simp add: q1_def)
  with assms(2,3) Enqueue have "Suc (length xs) < length (fifo q)" and "q' = q1"
    by (auto split: if_splits)
  then show ?thesis
    using ring_enqueue(3)[OF assms(1), of e] Enqueue by (simp add: q1_def)
next
  case Dequeue
  show ?thesis
  proof (cases xs)
    case Nil
    then show ?thesis
      using assms(1,2) Dequeue ring_dequeue_Nil[of sz q] by auto
  next
    case (Cons x xs')
    then show ?thesis
      using assms(1,2) Dequeue ring_remove_head(1,3)[of sz q x xs'] by auto
  qed
next
  case (Enforce limit)
  then show ?thesis
    using assms(2) ring_check_and_truncate[OF assms(1), of limit]
    by (auto split: sum.splits)
qed

lemma run_queue_after:
  assumes "ring sz q xs" and "run sz q calls = Inr (outs, q')" and "Status 1 \<notin> set outs"
  shows "ring sz q' (queue_after xs calls)"
  using assms
proof (induction calls arbitrary: q xs outs)
  case Nil
  then show ?case by auto
next
  case (Cons c calls)
  from Cons.prems(2) obtain out q1 outs1 where
    s: "step sz q c = Inr (out, q1)" and r: "run sz q1 calls = Inr (outs1, q')"
    and o: "outs = out # outs1"
    by (auto split: sum.splits)
  from o Cons.prems(3) have "out \<noteq> Status 1" and no: "Status 1 \<notin> set outs1" by auto
  from step_abs_step[OF Cons.prems(1) s this(1)] have "ring sz q1 (abs_step xs c)" .
  from Cons.IH[OF this r no] show ?case by simp
qed

lemma run_until_first_overflow:
  assumes "ring sz q xs" and "run sz q calls = Inr (outs, q')"
    and "Status 1 \<notin> set (butlast outs)"
  shows "holds_from_head sz q' (queue_after xs calls)"
proof (cases calls rule: rev_cases)
  case Nil
  then show ?thesis using assms(1,2) by (simp add: ring_holds)
next
  case (snoc cs c)
  from assms(2) snoc obtain outs1 q1 out where
    r1: "run sz q cs = Inr (outs1, q1)" and s: "step sz q1 c = Inr (out, q')"
    and o: "outs = outs1 @ [out]"
    by (auto simp: run_append split: sum.splits)
  from o assms(3) have "Status 1 \<notin> set outs1" by simp
  from run_queue_after[OF assms(1) r1 this] have ring1: "ring sz q1 (queue_after xs cs)" .
  have qa: "queue_after xs calls = abs_step (queue_after xs cs) c"
    by (simp add: snoc queue_after_append)
  show ?thesis
  proof (cases "out = Status 1")
    case False
    from step_abs_step[OF ring1 s False] show ?thesis
      by (simp add: qa ring_holds)
  next
    case True
    with s obtain e where c: "c = Enqueue e"
      and enq: "enqueue q1 sz (Some e) = Inr (1, q')"
      by (cases c) (auto split: sum.splits)
    from ring_enqueue(1)[OF ring1, of e] enq
    have full: "Suc (length (queue_after xs cs)) = length (fifo q1)"
      and q': "q' = q1\<lparr>fifo := (fifo q1)[nat (tail q1) := Some e], tail := (tail q1 + 1) mod sz\<rparr>"
      using ring_lengths(2)[OF ring1] by (auto split: if_splits)
    from ring_enqueue_overflow(2)[OF ring1 full, of e] show ?thesis
      by (simp add: qa c q')
  qed
qed

section \<open>The claims\<close>

subsection \<open>C1: the capacity-minus-one bound\<close>

text \<open>
  C1. For every capacity \<open>C \<ge> 2\<close>: on the array of \<open>C\<close> null pointers with
  \<open>head = tail = 0\<close>, \<open>C\<close> enqueue calls in a row (of any elements \<open>es\<close>, with no
  dequeue in between) return status 0 for each of the first \<open>C - 1\<close> calls and status 1,
  overflow, for the \<open>C\<close>-th, which leaves every slot occupied and \<open>tail\<close> back on
  \<open>head\<close>. The instance \<open>C = 20\<close> with the same element twenty times is Example 1 of
  mm1\_example.c: the nineteenth call succeeds and the twentieth reports overflow.
\<close>

theorem enqueue_capacity_minus_one:
  assumes "2 \<le> C" and "length es = C"
  shows "run (int C) (init_queue C) (map Enqueue es) =
           Inr (replicate (C - 1) (Status 0) @ [Status 1],
                \<lparr>fifo = map Some es, head = 0, tail = 0\<rparr>)"
proof -
  define xs where "xs = butlast es"
  define e where "e = last es"
  have "es \<noteq> []" using assms by auto
  then have es: "es = xs @ [e]" by (simp add: xs_def e_def)
  have lxs: "length xs = C - 1" using assms by (simp add: xs_def)
  have C: "0 < C" using assms by simp
  have "length ([] :: 'a list) + length xs < length (fifo (init_queue C :: 'a queue))"
    using C by (simp add: lxs init_queue_def)
  from run_enqueues_ring[OF ring_init[OF C] this]
  obtain q1 :: "'a queue" where
    r1: "run (int C) (init_queue C) (map Enqueue xs) = Inr (replicate (C - 1) (Status 0), q1)"
    and ring1: "ring (int C) q1 xs" and h1: "head q1 = 0" and l1: "length (fifo q1) = C"
    by (auto simp: lxs init_queue_def)
  define q2 where
    "q2 = q1\<lparr>fifo := (fifo q1)[nat (tail q1) := Some e], tail := (tail q1 + 1) mod int C\<rparr>"
  have enq: "enqueue q1 (int C) (Some e) = Inr (1, q2)"
    using ring_enqueue(1)[OF ring1, of e] C by (simp add: q2_def lxs l1)
  have "fifo q2 = map Some es"
    using ring_enqueue(2)[OF ring1, of e] C by (simp add: q2_def h1 lxs l1 es)
  moreover have "tail q2 = 0"
  proof -
    have "tail q1 = (head q1 + int (length xs)) mod int C"
      using ring1 by (simp add: ring_def)
    also have "\<dots> = int ((C - 1) mod C)"
      by (simp only: h1 lxs zmod_int add_0)
    also have "(C - 1) mod C = C - 1" using C by simp
    finally have "tail q1 + 1 = int C" using C by simp
    then show ?thesis by (simp add: q2_def)
  qed
  moreover have "head q2 = 0" by (simp add: q2_def h1)
  ultimately have q2: "q2 = \<lparr>fifo = map Some es, head = 0, tail = 0\<rparr>"
    by (intro queue.equality) simp_all
  have "run (int C) (init_queue C) (map Enqueue xs @ [Enqueue e]) =
      Inr (replicate (C - 1) (Status 0) @ [Status 1], q2)"
    using r1 enq by (simp add: run_append)
  then show ?thesis by (simp add: es q2)
qed

theorem enqueue_capacity_minus_one_witness:
  "(2::nat) \<le> 20 \<and> length (replicate 20 ''ab'') = 20 \<and>
   run 20 (init_queue 20) (map Enqueue (replicate 20 ''ab'')) =
     Inr (replicate 19 (Status 0) @ [Status 1],
          \<lparr>fifo = replicate 20 (Some ''ab''), head = 0, tail = 0\<rparr>)"
  using enqueue_capacity_minus_one [of 20 "replicate 20 ''ab''"] by simp

subsection \<open>C2: FIFO order\<close>

text \<open>
  C2. Let \<open>q\<close> be an empty queue: every slot null and \<open>head = tail\<close> at any index of
  the array (\<open>ring sz q []\<close>; the freshly constructed queue is one). If the elements
  \<open>es = e1, ..., en\<close> are enqueued in that order and every enqueue returns status 0, then
  \<open>n\<close> dequeue calls on the resulting state return \<open>e1, ..., en\<close> in exactly that order.
\<close>

theorem fifo_order:
  assumes "ring sz q []"
    and "run sz q (map Enqueue es) = Inr (replicate (length es) (Status 0), q1)"
  shows "\<exists>q2. run sz q1 (replicate (length es) Dequeue) =
                Inr (map (\<lambda>e. Departure (Some e)) es, q2)"
proof -
  have "Status 1 \<notin> set (replicate (length es) (Status 0 :: 'a outcome))" by simp
  from run_enqueues_no_overflow[OF assms(1,2) this] have "ring sz q1 es" by simp
  from run_dequeues_ring[OF this] show ?thesis by blast
qed

theorem fifo_order_witness:
  "ring 3 \<lparr>fifo = [None, None, None], head = 2, tail = 2\<rparr> ([] :: string list) \<and>
   run 3 \<lparr>fifo = [None, None, None], head = 2, tail = 2\<rparr> (map Enqueue [''ab'', ''cd'']) =
     Inr (replicate (length [''ab'', ''cd'']) (Status 0),
          \<lparr>fifo = [Some ''cd'', None, Some ''ab''], head = 2, tail = 1\<rparr>) \<and>
   (\<exists>q2. run 3 \<lparr>fifo = [Some ''cd'', None, Some ''ab''], head = 2, tail = 1\<rparr>
            (replicate (length [''ab'', ''cd'']) Dequeue) =
          Inr (map (\<lambda>e. Departure (Some e)) [''ab'', ''cd''], q2))"
proof -
  have r: "ring 3 \<lparr>fifo = [None, None, None], head = 2, tail = 2\<rparr> ([] :: string list)"
    by (simp add: ring_def in_bounds_def rotate_def numeral_2_eq_2)
  have e: "run 3 \<lparr>fifo = [None, None, None], head = 2, tail = 2\<rparr> (map Enqueue [''ab'', ''cd'']) =
     Inr (replicate (length [''ab'', ''cd'']) (Status 0),
          \<lparr>fifo = [Some ''cd'', None, Some ''ab''], head = 2, tail = 1\<rparr>)"
    by code_simp
  from r e fifo_order[OF r e] show ?thesis by blast
qed

subsection \<open>C3: how many slots can be occupied\<close>

text \<open>
  C3 as stated, "at most \<open>C - 1\<close> slots are occupied in every state reachable by
  enqueue, dequeue and truncation calls", fails: \<open>enqueue\<close> writes the element before
  it looks at the next slot, so the call that reports overflow fills the last free slot.
  With two slots, two enqueue calls leave both occupied, with \<open>head = tail\<close>.
\<close>

theorem all_slots_occupied_after_overflow:
  "run 2 (init_queue 2) [Enqueue ''ab'', Enqueue ''cd''] =
     Inr ([Status 0, Status 1], \<lparr>fifo = [Some ''ab'', Some ''cd''], head = 0, tail = 0\<rparr>) \<and>
   len [Some ''ab'', Some ''cd''] 2 = Inr 2 \<and>
   \<not> occupied [Some ''ab'', Some ''cd''] \<le> 2 - 1"
  by code_simp

text \<open>
  C3, amended. In every state reached from the freshly constructed queue of capacity
  \<open>C \<ge> 2\<close> by enqueue, dequeue and truncation calls none of which reported overflow,
  at most \<open>C - 1\<close> slots are occupied, the counting loop returns that number, and
  \<open>head = tail\<close> holds exactly when no slot is occupied. An enqueue on such a state
  reports overflow exactly when \<open>C - 1\<close> slots are occupied; that call has already
  written its element, and it leaves all \<open>C\<close> slots occupied with \<open>head = tail\<close>.
\<close>

theorem occupancy_bound_without_overflow:
  assumes "2 \<le> C" and "run (int C) (init_queue C) calls = Inr (outs, q)"
    and "Status 1 \<notin> set outs"
  shows "occupied (fifo q) \<le> C - 1 \<and>
         len (fifo q) (int C) = Inr (int (occupied (fifo q))) \<and>
         (head q = tail q \<longleftrightarrow> occupied (fifo q) = 0) \<and>
         (\<forall>e. \<exists>q'. enqueue q (int C) (Some e) =
                    Inr (if Suc (occupied (fifo q)) < C then 0 else 1, q') \<and>
                  (Suc (occupied (fifo q)) = C \<longrightarrow>
                     occupied (fifo q') = C \<and> head q' = tail q'))"
proof -
  have "0 < C" using assms(1) by simp
  from run_ring[OF ring_init[OF this] assms(2,3)] obtain ys where r: "ring (int C) q ys" ..
  have l: "length (fifo q) = C" using ring_lengths(1)[OF r] by simp
  have occ: "occupied (fifo q) = length ys" using r by (rule ring_occupied)
  have lt: "length ys < C" using ring_lengths(2)[OF r] l by simp
  have bound: "occupied (fifo q) \<le> C - 1" using occ lt by simp
  have cnt: "len (fifo q) (int C) = Inr (int (occupied (fifo q)))"
    using len_occupied[of "fifo q"] l by simp
  have "head q = tail q \<longleftrightarrow> ys = []" using r by (rule ring_head_eq_tail)
  then have empty: "head q = tail q \<longleftrightarrow> occupied (fifo q) = 0" using occ by simp
  have next_call: "\<forall>e. \<exists>q'. enqueue q (int C) (Some e) =
                    Inr (if Suc (occupied (fifo q)) < C then 0 else 1, q') \<and>
                  (Suc (occupied (fifo q)) = C \<longrightarrow>
                     occupied (fifo q') = C \<and> head q' = tail q')"
  proof
    fix e
    define q' where
      "q' = q\<lparr>fifo := (fifo q)[nat (tail q) := Some e], tail := (tail q + 1) mod int C\<rparr>"
    have "enqueue q (int C) (Some e) = Inr (if Suc (occupied (fifo q)) < C then 0 else 1, q')"
      using ring_enqueue(1)[OF r, of e] by (simp add: q'_def occ l)
    moreover have "occupied (fifo q') = C \<and> head q' = tail q'"
      if "Suc (occupied (fifo q)) = C"
    proof -
      from that have full: "Suc (length ys) = length (fifo q)" by (simp add: occ l)
      from ring_enqueue_overflow(3,4)[OF r full, of e] show ?thesis
        by (simp add: q'_def l)
    qed
    ultimately show "\<exists>q'. enqueue q (int C) (Some e) =
                    Inr (if Suc (occupied (fifo q)) < C then 0 else 1, q') \<and>
                  (Suc (occupied (fifo q)) = C \<longrightarrow>
                     occupied (fifo q') = C \<and> head q' = tail q')"
      by (intro exI[of _ q']) simp
  qed
  from bound cnt empty next_call show ?thesis by (intro conjI)
qed

theorem occupancy_bound_without_overflow_witness:
  "(2::nat) \<le> 3 \<and>
   run 3 (init_queue 3) [Enqueue ''ab'', Enqueue ''cd'', Dequeue, Enqueue ''ef''] =
     Inr ([Status 0, Status 0, Departure (Some ''ab''), Status 0],
          \<lparr>fifo = [None, Some ''cd'', Some ''ef''], head = 1, tail = 0\<rparr>) \<and>
   Status 1 \<notin> set [Status 0, Status 0, Departure (Some ''ab''), Status 0] \<and>
   occupied (fifo \<lparr>fifo = [None, Some ''cd'', Some ''ef''], head = 1, tail = 0\<rparr>) \<le> 3 - 1 \<and>
   len (fifo \<lparr>fifo = [None, Some ''cd'', Some ''ef''], head = 1, tail = 0\<rparr>) 3 =
     Inr (int (occupied (fifo \<lparr>fifo = [None, Some ''cd'', Some ''ef''], head = 1, tail = 0\<rparr>))) \<and>
   (head \<lparr>fifo = [None, Some ''cd'', Some ''ef''], head = 1, tail = 0\<rparr> =
      tail \<lparr>fifo = [None, Some ''cd'', Some ''ef''], head = 1, tail = 0\<rparr> \<longleftrightarrow>
    occupied (fifo \<lparr>fifo = [None, Some ''cd'', Some ''ef''], head = 1, tail = 0\<rparr>) = 0) \<and>
   Suc (occupied (fifo \<lparr>fifo = [None, Some ''cd'', Some ''ef''], head = 1, tail = 0\<rparr>)) = 3 \<and>
   enqueue \<lparr>fifo = [None, Some ''cd'', Some ''ef''], head = 1, tail = 0\<rparr> 3 (Some ''gh'') =
     Inr (1, \<lparr>fifo = [Some ''gh'', Some ''cd'', Some ''ef''], head = 1, tail = 1\<rparr>) \<and>
   occupied (fifo \<lparr>fifo = [Some ''gh'', Some ''cd'', Some ''ef''], head = 1, tail = 1\<rparr>) = 3 \<and>
   head \<lparr>fifo = [Some ''gh'', Some ''cd'', Some ''ef''], head = 1, tail = 1\<rparr> =
     tail \<lparr>fifo = [Some ''gh'', Some ''cd'', Some ''ef''], head = 1, tail = 1\<rparr>"
proof -
  let ?Q = "\<lparr>fifo = [None, Some ''cd'', Some ''ef''], head = 1, tail = 0\<rparr>"
  let ?Q' = "\<lparr>fifo = [Some ''gh'', Some ''cd'', Some ''ef''], head = 1, tail = 1\<rparr>"
  have r: "run (int 3) (init_queue 3) [Enqueue ''ab'', Enqueue ''cd'', Dequeue, Enqueue ''ef''] =
     Inr ([Status 0, Status 0, Departure (Some ''ab''), Status 0], ?Q)"
    by code_simp
  have n: "Status 1 \<notin> set [Status 0, Status 0, Departure (Some ''ab''), Status 0]"
    by simp
  have c: "(2::nat) \<le> 3" by simp
  have oc: "Suc (occupied (fifo ?Q)) = 3" by (simp add: occupied_def)
  have e: "enqueue ?Q 3 (Some ''gh'') = Inr (1, ?Q')" by code_simp
  note t = occupancy_bound_without_overflow[OF c r n]
  from t have 1: "occupied (fifo ?Q) \<le> 3 - 1"
    and 2: "len (fifo ?Q) (int 3) = Inr (int (occupied (fifo ?Q)))"
    and 3: "head ?Q = tail ?Q \<longleftrightarrow> occupied (fifo ?Q) = 0"
    by blast+
  from t obtain q' where
    4: "enqueue ?Q (int 3) (Some ''gh'') = Inr (if Suc (occupied (fifo ?Q)) < 3 then 0 else 1, q')"
    and 5: "Suc (occupied (fifo ?Q)) = 3 \<longrightarrow> occupied (fifo q') = 3 \<and> head q' = tail q'"
    by blast
  from 4 e have "q' = ?Q'" by simp
  with 5 oc have 6: "occupied (fifo ?Q') = 3 \<and> head ?Q' = tail ?Q'" by blast
  from r have rr: "run 3 (init_queue 3) [Enqueue ''ab'', Enqueue ''cd'', Dequeue, Enqueue ''ef''] =
     Inr ([Status 0, Status 0, Departure (Some ''ab''), Status 0], ?Q)" by simp
  from 2 have cnt: "len (fifo ?Q) 3 = Inr (int (occupied (fifo ?Q)))" by simp
  from c rr n 1 cnt 3 oc e 6 show ?thesis by blast
qed

subsection \<open>C4: what the truncation removes\<close>

text \<open>
  C4 as stated, for every queue state, fails in its third part. After an enqueue on an
  array that is already full the oldest element is no longer at \<open>head\<close>: with two slots,
  three enqueue calls
  leave "ef", the element enqueued last, in the head slot and "cd", enqueued before it,
  in the other one; truncating to \<open>limit = 1 = capacity - 1\<close> evicts "ef" and keeps "cd".
\<close>

theorem truncation_evicts_newest_after_overflow:
  "run 2 (init_queue 2) [Enqueue ''ab'', Enqueue ''cd'', Enqueue ''ef''] =
     Inr ([Status 0, Status 1, Status 1],
          \<lparr>fifo = [Some ''ef'', Some ''cd''], head = 0, tail = 1\<rparr>) \<and>
   (1::int) \<le> 2 - 1 \<and>
   check_and_truncate \<lparr>fifo = [Some ''ef'', Some ''cd''], head = 0, tail = 1\<rparr> 2 1 =
     Inr \<lparr>fifo = [None, Some ''cd''], head = 1, tail = 1\<rparr>"
  by code_simp

text \<open>
  C4, amended. For every state with the head index inside the array of \<open>sz\<close> slots and
  every \<open>limit \<le> sz - 1\<close>, \<open>check_and_truncate\<close> returns a state whose occupancy is at
  most the maximum of \<open>limit\<close> and the occupancy before, and never more than the occupancy
  before. If the head slot is empty nothing is evicted. If the array holds a queue \<open>xs\<close>
  in order from \<open>head\<close>, oldest first, with or without a free slot, the state returned
  holds \<open>xs\<close> without its first \<open>length xs - limit\<close> elements (none if that is not
  positive): the evicted elements are exactly the oldest ones, and
  \<open>min (length xs) (max limit 0)\<close> elements remain. Every state reached from the freshly
  constructed queue with no overflow reported before the last call holds in order from
  \<open>head\<close> the queue that the calls describe; that includes the full array left by the
  first enqueue that reports overflow.
\<close>

theorem truncation_convergence:
  assumes "sz = int (length (fifo q))" and "in_bounds (fifo q) (head q)"
    and "limit \<le> sz - 1"
  shows "\<exists>q'. check_and_truncate q sz limit = Inr q' \<and>
           int (occupied (fifo q')) \<le> max limit (int (occupied (fifo q))) \<and>
           occupied (fifo q') \<le> occupied (fifo q) \<and>
           (fifo q ! nat (head q) = None \<longrightarrow> q' = q) \<and>
           (\<forall>xs. holds_from_head sz q xs \<longrightarrow>
              holds_from_head sz q' (drop (nat (int (length xs) - limit)) xs) \<and>
              int (occupied (fifo q')) = min (int (length xs)) (max limit 0)) \<and>
           (\<forall>C calls outs.
              0 < C \<and> sz = int C \<and> run sz (init_queue C) calls = Inr (outs, q) \<and>
              Status 1 \<notin> set (butlast outs) \<longrightarrow>
              holds_from_head sz q (queue_after [] calls))"
proof -
  from check_and_truncate_general[OF assms(1,2), of limit] obtain k q' where
    c: "check_and_truncate q sz limit = Inr q'" and
    cnt: "occupied (fifo q') + k = occupied (fifo q)"
    by blast
  have le: "occupied (fifo q') \<le> occupied (fifo q)" using cnt by simp
  then have mx: "int (occupied (fifo q')) \<le> max limit (int (occupied (fifo q)))" by simp
  have idle: "fifo q ! nat (head q) = None \<longrightarrow> q' = q"
  proof
    assume "fifo q ! nat (head q) = None"
    then have "truncate_loop q sz limit (int (occupied (fifo q))) = Inr q"
      using assms(2) by (subst truncate_loop.simps) simp
    moreover have "len (fifo q) sz = Inr (int (occupied (fifo q)))"
      using len_occupied[of "fifo q"] assms(1) by simp
    ultimately have "check_and_truncate q sz limit = Inr q"
      by (simp add: check_and_truncate_def)
    with c show "q' = q" by simp
  qed
  have kept: "\<forall>xs. holds_from_head sz q xs \<longrightarrow>
      holds_from_head sz q' (drop (nat (int (length xs) - limit)) xs) \<and>
      int (occupied (fifo q')) = min (int (length xs)) (max limit 0)"
  proof (intro allI impI)
    fix xs assume r: "holds_from_head sz q xs"
    from holds_check_and_truncate[OF r, of limit] c
    have r': "holds_from_head sz q' (drop (nat (int (length xs) - limit)) xs)" by simp
    from holds_occupied[OF r']
    have "int (occupied (fifo q')) = min (int (length xs)) (max limit 0)" by auto
    with r' show "holds_from_head sz q' (drop (nat (int (length xs) - limit)) xs) \<and>
      int (occupied (fifo q')) = min (int (length xs)) (max limit 0)" ..
  qed
  have reached: "\<forall>C calls outs.
      0 < C \<and> sz = int C \<and> run sz (init_queue C) calls = Inr (outs, q) \<and>
      Status 1 \<notin> set (butlast outs) \<longrightarrow> holds_from_head sz q (queue_after [] calls)"
  proof (intro allI impI, elim conjE)
    fix C :: nat and calls :: "'a call list" and outs
    assume "0 < C" and sz: "sz = int C"
      and r: "run sz (init_queue C) calls = Inr (outs, q)"
      and n: "Status 1 \<notin> set (butlast outs)"
    from ring_init[OF \<open>0 < C\<close>] have "ring sz (init_queue C) ([] :: 'a list)"
      by (simp add: sz)
    from run_until_first_overflow[OF this r n]
    show "holds_from_head sz q (queue_after [] calls)" .
  qed
  from c mx le idle kept reached show ?thesis
    by (intro exI[of _ q'] conjI)
qed

theorem truncation_convergence_witness:
  "3 = int (length (fifo \<lparr>fifo = [Some ''gh'', Some ''cd'', Some ''ef''], head = 1, tail = 1\<rparr>)) \<and>
   in_bounds (fifo \<lparr>fifo = [Some ''gh'', Some ''cd'', Some ''ef''], head = 1, tail = 1\<rparr>)
     (head \<lparr>fifo = [Some ''gh'', Some ''cd'', Some ''ef''], head = 1, tail = 1\<rparr>) \<and>
   (1::int) \<le> 3 - 1 \<and>
   run 3 (init_queue 3) [Enqueue ''ab'', Enqueue ''cd'', Dequeue, Enqueue ''ef'', Enqueue ''gh''] =
     Inr ([Status 0, Status 0, Departure (Some ''ab''), Status 0, Status 1],
          \<lparr>fifo = [Some ''gh'', Some ''cd'', Some ''ef''], head = 1, tail = 1\<rparr>) \<and>
   Status 1 \<notin> set (butlast [Status 0, Status 0, Departure (Some ''ab''), Status 0, Status 1]) \<and>
   queue_after [] [Enqueue ''ab'', Enqueue ''cd'', Dequeue, Enqueue ''ef'', Enqueue ''gh''] =
     [''cd'', ''ef'', ''gh''] \<and>
   holds_from_head 3 \<lparr>fifo = [Some ''gh'', Some ''cd'', Some ''ef''], head = 1, tail = 1\<rparr>
     [''cd'', ''ef'', ''gh''] \<and>
   check_and_truncate \<lparr>fifo = [Some ''gh'', Some ''cd'', Some ''ef''], head = 1, tail = 1\<rparr> 3 1 =
     Inr \<lparr>fifo = [Some ''gh'', None, None], head = 0, tail = 1\<rparr> \<and>
   holds_from_head 3 \<lparr>fifo = [Some ''gh'', None, None], head = 0, tail = 1\<rparr>
     (drop (nat (int (length [''cd'', ''ef'', ''gh'']) - 1)) [''cd'', ''ef'', ''gh'']) \<and>
   int (occupied (fifo \<lparr>fifo = [Some ''gh'', None, None], head = 0, tail = 1\<rparr>)) =
     min (int (length [''cd'', ''ef'', ''gh''])) (max 1 0) \<and>
   occupied (fifo \<lparr>fifo = [Some ''gh'', None, None], head = 0, tail = 1\<rparr>) \<le>
     occupied (fifo \<lparr>fifo = [Some ''gh'', Some ''cd'', Some ''ef''], head = 1, tail = 1\<rparr>)"
proof -
  let ?Q = "\<lparr>fifo = [Some ''gh'', Some ''cd'', Some ''ef''], head = 1, tail = 1\<rparr>"
  let ?Q' = "\<lparr>fifo = [Some ''gh'', None, None], head = 0, tail = 1\<rparr>"
  let ?calls = "[Enqueue ''ab'', Enqueue ''cd'', Dequeue, Enqueue ''ef'', Enqueue ''gh'']"
  let ?outs = "[Status 0, Status 0, Departure (Some ''ab''), Status 0, Status 1]"
  have a: "3 = int (length (fifo ?Q))" by simp
  have b: "in_bounds (fifo ?Q) (head ?Q)" by (simp add: in_bounds_def)
  have c: "(1::int) \<le> 3 - 1" by simp
  have r: "run 3 (init_queue 3) ?calls = Inr (?outs, ?Q)" by code_simp
  have n: "Status 1 \<notin> set (butlast ?outs)" by simp
  have qa: "queue_after [] ?calls = [''cd'', ''ef'', ''gh'']" by simp
  have e: "check_and_truncate ?Q 3 1 = Inr ?Q'" by code_simp
  have pos: "(0::nat) < 3" by simp
  have sz: "(3::int) = int 3" by simp
  from truncation_convergence[OF a b c] obtain q' where
    1: "check_and_truncate ?Q 3 1 = Inr q'" and
    2: "occupied (fifo q') \<le> occupied (fifo ?Q)" and
    3: "\<forall>xs. holds_from_head 3 ?Q xs \<longrightarrow>
          holds_from_head 3 q' (drop (nat (int (length xs) - 1)) xs) \<and>
          int (occupied (fifo q')) = min (int (length xs)) (max 1 0)" and
    4: "\<forall>C calls outs.
          0 < C \<and> 3 = int C \<and> run 3 (init_queue C) calls = Inr (outs, ?Q) \<and>
          Status 1 \<notin> set (butlast outs) \<longrightarrow> holds_from_head 3 ?Q (queue_after [] calls)"
    by (elim exE conjE)
  from 4 pos sz r n have "holds_from_head 3 ?Q (queue_after [] ?calls)" by blast
  then have h: "holds_from_head 3 ?Q [''cd'', ''ef'', ''gh'']" by (simp only: qa)
  from 1 e have q': "q' = ?Q'" by simp
  from 3 h have "holds_from_head 3 q' (drop (nat (int (length [''cd'', ''ef'', ''gh'']) - 1))
        [''cd'', ''ef'', ''gh'']) \<and>
      int (occupied (fifo q')) = min (int (length [''cd'', ''ef'', ''gh''])) (max 1 0)"
    by blast
  with 2 have "holds_from_head 3 ?Q' (drop (nat (int (length [''cd'', ''ef'', ''gh'']) - 1))
        [''cd'', ''ef'', ''gh'']) \<and>
      int (occupied (fifo ?Q')) = min (int (length [''cd'', ''ef'', ''gh''])) (max 1 0) \<and>
      occupied (fifo ?Q') \<le> occupied (fifo ?Q)"
    unfolding q' by blast
  with a b c r n qa h e show ?thesis by blast
qed

subsection \<open>C5: one eviction and one dequeue\<close>

text \<open>
  C5 as stated fails where it says that an eviction leaves \<open>head\<close> unchanged
  when \<open>head = tail\<close>: \<^verbatim>\<open>check_and_truncate\<close> does not receive \<^verbatim>\<open>p_tail\<close> and advances
  \<open>head\<close> in every pass. On the state that two enqueue calls leave in an array of two
  slots (both occupied, \<open>head = tail = 0\<close>), truncating to one element moves \<open>head\<close> to 1,
  while \<open>dequeue\<close> on the same state clears the same slot and leaves \<open>head\<close> at 0.
\<close>

theorem eviction_advances_head_dequeue_does_not:
  "run 2 (init_queue 2) [Enqueue ''ab'', Enqueue ''cd''] =
     Inr ([Status 0, Status 1], \<lparr>fifo = [Some ''ab'', Some ''cd''], head = 0, tail = 0\<rparr>) \<and>
   check_and_truncate \<lparr>fifo = [Some ''ab'', Some ''cd''], head = 0, tail = 0\<rparr> 2 1 =
     Inr \<lparr>fifo = [None, Some ''cd''], head = 1, tail = 0\<rparr> \<and>
   evict \<lparr>fifo = [Some ''ab'', Some ''cd''], head = 0, tail = 0\<rparr> 2 =
     Inr \<lparr>fifo = [None, Some ''cd''], head = 1, tail = 0\<rparr> \<and>
   dequeue \<lparr>fifo = [Some ''ab'', Some ''cd''], head = 0, tail = 0\<rparr> 2 =
     Inr (Some ''ab'', \<lparr>fifo = [None, Some ''cd''], head = 0, tail = 0\<rparr>)"
  by code_simp

text \<open>
  C5, amended. Every eviction performed by \<open>check_and_truncate\<close> (when the occupancy
  exceeds the limit and the head slot is occupied, the call is one \<open>evict\<close> followed by
  the truncation of the state it leaves) clears the slot at \<open>head\<close> and advances \<open>head\<close>
  by one modulo \<open>sz\<close>, whatever \<open>tail\<close> is. That is the state change of \<open>dequeue\<close>
  whenever \<open>head \<noteq> tail\<close>; when \<open>head = tail\<close>, \<open>dequeue\<close> clears the slot and leaves
  \<open>head\<close> where it is.
\<close>

theorem eviction_state_change:
  assumes "sz = int (length (fifo q))" and "in_bounds (fifo q) (head q)"
    and "fifo q ! nat (head q) \<noteq> None"
  shows "evict q sz =
           Inr (q\<lparr>fifo := (fifo q)[nat (head q) := None], head := (head q + 1) mod sz\<rparr>) \<and>
         (limit < int (occupied (fifo q)) \<longrightarrow>
            (\<exists>q1. evict q sz = Inr q1 \<and>
                  check_and_truncate q sz limit = check_and_truncate q1 sz limit)) \<and>
         (head q \<noteq> tail q \<longrightarrow>
            dequeue q sz =
              Inr (fifo q ! nat (head q),
                   q\<lparr>fifo := (fifo q)[nat (head q) := None], head := (head q + 1) mod sz\<rparr>)) \<and>
         (head q = tail q \<longrightarrow>
            dequeue q sz =
              Inr (fifo q ! nat (head q), q\<lparr>fifo := (fifo q)[nat (head q) := None]\<rparr>))"
proof -
  define q1 where
    "q1 = q\<lparr>fifo := (fifo q)[nat (head q) := None], head := (head q + 1) mod sz\<rparr>"
  have e1: "evict q sz = Inr q1"
    using evict_in_bounds[OF assms(1,2)] by (simp add: q1_def)
  have pos: "0 < sz" using assms(1,2) in_bounds_pos by auto
  have "0 \<le> head q + 1" using assms(2) by (simp add: in_bounds_def)
  then have crem: "c_rem (head q + 1) sz = (head q + 1) mod sz"
    using pos by (rule c_rem_nonneg)
  have "check_and_truncate q sz limit = check_and_truncate q1 sz limit"
    if lim: "limit < int (occupied (fifo q))"
  proof -
    note k1 = evict_keeps(1,2)[OF assms(1,2) e1]
    have "Suc (occupied (fifo q1)) = occupied (fifo q)"
      using in_bounds_nat[OF assms(2)] assms(3) by (simp add: q1_def occupied_clear_Suc)
    then have occ: "int (occupied (fifo q)) - 1 = int (occupied (fifo q1))" by simp
    have "check_and_truncate q sz limit = truncate_loop q sz limit (int (occupied (fifo q)))"
      using len_occupied[of "fifo q"] assms(1) by (simp add: check_and_truncate_def)
    also have "\<dots> = truncate_loop q1 sz limit (int (occupied (fifo q)) - 1)"
      using assms(2,3) lim e1 by (subst truncate_loop.simps) simp
    also have "\<dots> = check_and_truncate q1 sz limit"
      using len_occupied[of "fifo q1"] k1(1) by (simp add: check_and_truncate_def occ)
    finally show ?thesis .
  qed
  moreover have "dequeue q sz = Inr (fifo q ! nat (head q), q1)" if "head q \<noteq> tail q"
    using that assms(2,3) pos by (simp add: dequeue_def Let_def crem q1_def)
  moreover have "dequeue q sz =
      Inr (fifo q ! nat (head q), q\<lparr>fifo := (fifo q)[nat (head q) := None]\<rparr>)"
    if "head q = tail q"
    using that assms(2,3) by (simp add: dequeue_def Let_def)
  ultimately show ?thesis using e1 by (simp add: q1_def)
qed

theorem eviction_state_change_witness:
  "3 = int (length (fifo \<lparr>fifo = [Some ''ef'', None, Some ''cd''], head = 2, tail = 1\<rparr>)) \<and>
   in_bounds (fifo \<lparr>fifo = [Some ''ef'', None, Some ''cd''], head = 2, tail = 1\<rparr>)
     (head \<lparr>fifo = [Some ''ef'', None, Some ''cd''], head = 2, tail = 1\<rparr>) \<and>
   fifo \<lparr>fifo = [Some ''ef'', None, Some ''cd''], head = 2, tail = 1\<rparr> !
     nat (head \<lparr>fifo = [Some ''ef'', None, Some ''cd''], head = 2, tail = 1\<rparr>) \<noteq> None \<and>
   (1::int) < int (occupied (fifo \<lparr>fifo = [Some ''ef'', None, Some ''cd''], head = 2, tail = 1\<rparr>)) \<and>
   head \<lparr>fifo = [Some ''ef'', None, Some ''cd''], head = 2, tail = 1\<rparr> \<noteq>
     tail \<lparr>fifo = [Some ''ef'', None, Some ''cd''], head = 2, tail = 1\<rparr> \<and>
   evict \<lparr>fifo = [Some ''ef'', None, Some ''cd''], head = 2, tail = 1\<rparr> 3 =
     Inr \<lparr>fifo = [Some ''ef'', None, None], head = 0, tail = 1\<rparr> \<and>
   dequeue \<lparr>fifo = [Some ''ef'', None, Some ''cd''], head = 2, tail = 1\<rparr> 3 =
     Inr (Some ''cd'', \<lparr>fifo = [Some ''ef'', None, None], head = 0, tail = 1\<rparr>) \<and>
   check_and_truncate \<lparr>fifo = [Some ''ef'', None, Some ''cd''], head = 2, tail = 1\<rparr> 3 1 =
     check_and_truncate \<lparr>fifo = [Some ''ef'', None, None], head = 0, tail = 1\<rparr> 3 1"
proof -
  have a: "3 = int (length (fifo \<lparr>fifo = [Some ''ef'', None, Some ''cd''], head = 2, tail = 1\<rparr>))"
    by simp
  have b: "in_bounds (fifo \<lparr>fifo = [Some ''ef'', None, Some ''cd''], head = 2, tail = 1\<rparr>)
     (head \<lparr>fifo = [Some ''ef'', None, Some ''cd''], head = 2, tail = 1\<rparr>)"
    by (simp add: in_bounds_def)
  have c: "fifo \<lparr>fifo = [Some ''ef'', None, Some ''cd''], head = 2, tail = 1\<rparr> !
     nat (head \<lparr>fifo = [Some ''ef'', None, Some ''cd''], head = 2, tail = 1\<rparr>) \<noteq> None"
    by (simp add: numeral_2_eq_2)
  have d: "(1::int) < int (occupied (fifo \<lparr>fifo = [Some ''ef'', None, Some ''cd''], head = 2, tail = 1\<rparr>))"
    by (simp add: occupied_def)
  have e: "head \<lparr>fifo = [Some ''ef'', None, Some ''cd''], head = 2, tail = 1\<rparr> \<noteq>
     tail \<lparr>fifo = [Some ''ef'', None, Some ''cd''], head = 2, tail = 1\<rparr>"
    by simp
  have u: "\<lparr>fifo = [Some ''ef'', None, Some ''cd''], head = 2, tail = 1\<rparr>
      \<lparr>fifo := (fifo \<lparr>fifo = [Some ''ef'', None, Some ''cd''], head = 2, tail = 1\<rparr>)
         [nat (head \<lparr>fifo = [Some ''ef'', None, Some ''cd''], head = 2, tail = 1\<rparr>) := None],
       head := (head \<lparr>fifo = [Some ''ef'', None, Some ''cd''], head = 2, tail = 1\<rparr> + 1) mod 3\<rparr> =
     \<lparr>fifo = [Some ''ef'', None, None], head = 0, tail = 1\<rparr>"
    by (simp add: numeral_2_eq_2)
  from eviction_state_change[OF a b c, of 1] d e
  have "evict \<lparr>fifo = [Some ''ef'', None, Some ''cd''], head = 2, tail = 1\<rparr> 3 =
     Inr \<lparr>fifo = [Some ''ef'', None, None], head = 0, tail = 1\<rparr> \<and>
   dequeue \<lparr>fifo = [Some ''ef'', None, Some ''cd''], head = 2, tail = 1\<rparr> 3 =
     Inr (Some ''cd'', \<lparr>fifo = [Some ''ef'', None, None], head = 0, tail = 1\<rparr>) \<and>
   check_and_truncate \<lparr>fifo = [Some ''ef'', None, Some ''cd''], head = 2, tail = 1\<rparr> 3 1 =
     check_and_truncate \<lparr>fifo = [Some ''ef'', None, None], head = 0, tail = 1\<rparr> 3 1"
    unfolding u by (auto simp: numeral_2_eq_2)
  with a b c d e show ?thesis by blast
qed

subsection \<open>C6: dequeue with an empty head slot\<close>

text \<open>
  C6. In every queue state whose head slot is empty (the head index lying inside the
  array), \<open>dequeue\<close> returns the null pointer, "no element", and the state it leaves is
  the state it found: the array, \<open>head\<close> and \<open>tail\<close> are unchanged. Any number \<open>n\<close> of
  dequeue calls in a row each return "no element" and leave that same state.
\<close>

theorem dequeue_empty_idempotent:
  assumes "in_bounds (fifo q) (head q)" and "fifo q ! nat (head q) = None"
  shows "dequeue q sz = Inr (None, q) \<and>
         run sz q (replicate n Dequeue) = Inr (replicate n (Departure None), q)"
proof
  show "dequeue q sz = Inr (None, q)"
    using assms by (rule dequeue_on_empty_head)
  then show "run sz q (replicate n Dequeue) = Inr (replicate n (Departure None), q)"
    by (induction n) simp_all
qed

theorem dequeue_empty_idempotent_witness:
  "in_bounds (fifo \<lparr>fifo = [None, None, None :: string option], head = 2, tail = 2\<rparr>)
     (head \<lparr>fifo = [None, None, None :: string option], head = 2, tail = 2\<rparr>) \<and>
   fifo \<lparr>fifo = [None, None, None :: string option], head = 2, tail = 2\<rparr> !
     nat (head \<lparr>fifo = [None, None, None :: string option], head = 2, tail = 2\<rparr>) = None \<and>
   dequeue \<lparr>fifo = [None, None, None :: string option], head = 2, tail = 2\<rparr> 3 =
     Inr (None, \<lparr>fifo = [None, None, None], head = 2, tail = 2\<rparr>) \<and>
   run 3 \<lparr>fifo = [None, None, None :: string option], head = 2, tail = 2\<rparr>
       (replicate 3 Dequeue) =
     Inr (replicate 3 (Departure None), \<lparr>fifo = [None, None, None], head = 2, tail = 2\<rparr>)"
proof -
  let ?Q = "\<lparr>fifo = [None, None, None :: string option], head = 2, tail = 2\<rparr>"
  have a: "in_bounds (fifo ?Q) (head ?Q)" by (simp add: in_bounds_def)
  have b: "fifo ?Q ! nat (head ?Q) = None" by (simp add: numeral_2_eq_2)
  from a b dequeue_empty_idempotent[OF a b, of 3 3] show ?thesis by blast
qed

subsection \<open>C7: the round trip of fifo\_example.c\<close>

text \<open>
  C7. On the array of three null pointers with \<open>head = tail = 0\<close>, the calls of the
  round trip give: dequeue, no element; enqueue "ab", status 0, and one slot is occupied;
  enqueue "cd", status 0, two slots occupied; dequeue, "ab", one slot occupied;
  enqueue "ef", status 0, written to the last slot with \<open>tail\<close> wrapping to 0; dequeue,
  "cd"; dequeue, "ef", with \<open>head\<close> wrapping to 0; dequeue, no element.
\<close>

theorem round_trip_capacity_3:
  "run 3 (init_queue 3) [Dequeue, Enqueue ''ab''] =
     Inr ([Departure None, Status 0], \<lparr>fifo = [Some ''ab'', None, None], head = 0, tail = 1\<rparr>) \<and>
   len [Some ''ab'', None, None] 3 = Inr 1 \<and>
   run 3 \<lparr>fifo = [Some ''ab'', None, None], head = 0, tail = 1\<rparr> [Enqueue ''cd''] =
     Inr ([Status 0], \<lparr>fifo = [Some ''ab'', Some ''cd'', None], head = 0, tail = 2\<rparr>) \<and>
   len [Some ''ab'', Some ''cd'', None] 3 = Inr 2 \<and>
   run 3 \<lparr>fifo = [Some ''ab'', Some ''cd'', None], head = 0, tail = 2\<rparr> [Dequeue] =
     Inr ([Departure (Some ''ab'')], \<lparr>fifo = [None, Some ''cd'', None], head = 1, tail = 2\<rparr>) \<and>
   len [None, Some ''cd'', None] 3 = Inr 1 \<and>
   run 3 \<lparr>fifo = [None, Some ''cd'', None], head = 1, tail = 2\<rparr> [Enqueue ''ef''] =
     Inr ([Status 0], \<lparr>fifo = [None, Some ''cd'', Some ''ef''], head = 1, tail = 0\<rparr>) \<and>
   run 3 \<lparr>fifo = [None, Some ''cd'', Some ''ef''], head = 1, tail = 0\<rparr> [Dequeue, Dequeue] =
     Inr ([Departure (Some ''cd''), Departure (Some ''ef'')],
          \<lparr>fifo = [None, None, None], head = 0, tail = 0\<rparr>) \<and>
   run 3 \<lparr>fifo = [None, None, None :: string option], head = 0, tail = 0\<rparr> [Dequeue] =
     Inr ([Departure None], \<lparr>fifo = [None, None, None], head = 0, tail = 0\<rparr>) \<and>
   run 3 (init_queue 3)
     [Dequeue, Enqueue ''ab'', Enqueue ''cd'', Dequeue, Enqueue ''ef'', Dequeue, Dequeue, Dequeue] =
     Inr ([Departure None, Status 0, Status 0, Departure (Some ''ab''), Status 0,
           Departure (Some ''cd''), Departure (Some ''ef''), Departure None],
          \<lparr>fifo = [None, None, None], head = 0, tail = 0\<rparr>)"
  by code_simp

subsection \<open>C8: the truncation terminates\<close>

text \<open>
  C8. \<open>check_and_truncate\<close> is a total function of the model (its two loops are defined
  with termination proofs). For every state whose head index lies inside the array of
  \<open>sz\<close> slots and every integer \<open>limit\<close> it returns a state, after some number \<open>k\<close> of
  evictions, never an error, and it has no status to return. At the returned state the
  occupancy is at most \<open>limit\<close> or the head slot is empty; at each of the \<open>k\<close> states
  before it the occupancy exceeded \<open>limit\<close> and the head slot was occupied, so the loop
  stops at the first state where one of the two conditions holds. Each eviction frees
  one slot, so \<open>k\<close> is at most the occupancy at the call.
\<close>

theorem check_and_truncate_terminates:
  assumes "sz = int (length (fifo q))" and "in_bounds (fifo q) (head q)"
  shows "\<exists>k q'. check_and_truncate q sz limit = Inr q' \<and>
           evictions k sz q = Inr q' \<and>
           k \<le> occupied (fifo q) \<and>
           (int (occupied (fifo q')) \<le> limit \<or> fifo q' ! nat (head q') = None) \<and>
           (\<forall>j<k. \<exists>qj. evictions j sz q = Inr qj \<and>
                  limit < int (occupied (fifo qj)) \<and> fifo qj ! nat (head qj) \<noteq> None)"
proof -
  from check_and_truncate_general[OF assms, of limit] obtain k q' where
    "check_and_truncate q sz limit = Inr q'" "evictions k sz q = Inr q'"
    "occupied (fifo q') + k = occupied (fifo q)"
    "int (occupied (fifo q')) \<le> limit \<or> fifo q' ! nat (head q') = None"
    "\<forall>j<k. \<exists>qj. evictions j sz q = Inr qj \<and>
           limit < int (occupied (fifo qj)) \<and> fifo qj ! nat (head qj) \<noteq> None"
    by blast
  moreover from this(3) have "k \<le> occupied (fifo q)" by simp
  ultimately show ?thesis by blast
qed

theorem check_and_truncate_terminates_witness:
  "3 = int (length (fifo \<lparr>fifo = [Some ''ef'', None, Some ''cd''], head = 2, tail = 1\<rparr>)) \<and>
   in_bounds (fifo \<lparr>fifo = [Some ''ef'', None, Some ''cd''], head = 2, tail = 1\<rparr>)
     (head \<lparr>fifo = [Some ''ef'', None, Some ''cd''], head = 2, tail = 1\<rparr>) \<and>
   check_and_truncate \<lparr>fifo = [Some ''ef'', None, Some ''cd''], head = 2, tail = 1\<rparr> 3 (- 4) =
     Inr \<lparr>fifo = [None, None, None], head = 1, tail = 1\<rparr> \<and>
   (\<exists>k q'. check_and_truncate \<lparr>fifo = [Some ''ef'', None, Some ''cd''], head = 2, tail = 1\<rparr> 3 (- 4)
              = Inr q' \<and>
      evictions k 3 \<lparr>fifo = [Some ''ef'', None, Some ''cd''], head = 2, tail = 1\<rparr> = Inr q' \<and>
      k \<le> occupied (fifo \<lparr>fifo = [Some ''ef'', None, Some ''cd''], head = 2, tail = 1\<rparr>) \<and>
      (int (occupied (fifo q')) \<le> - 4 \<or> fifo q' ! nat (head q') = None) \<and>
      (\<forall>j<k. \<exists>qj. evictions j 3 \<lparr>fifo = [Some ''ef'', None, Some ''cd''], head = 2, tail = 1\<rparr>
                       = Inr qj \<and>
             - 4 < int (occupied (fifo qj)) \<and> fifo qj ! nat (head qj) \<noteq> None))"
proof -
  have a: "3 = int (length (fifo \<lparr>fifo = [Some ''ef'', None, Some ''cd''], head = 2, tail = 1\<rparr>))"
    by simp
  have b: "in_bounds (fifo \<lparr>fifo = [Some ''ef'', None, Some ''cd''], head = 2, tail = 1\<rparr>)
     (head \<lparr>fifo = [Some ''ef'', None, Some ''cd''], head = 2, tail = 1\<rparr>)"
    by (simp add: in_bounds_def)
  have c: "check_and_truncate \<lparr>fifo = [Some ''ef'', None, Some ''cd''], head = 2, tail = 1\<rparr> 3 (- 4) =
     Inr \<lparr>fifo = [None, None, None], head = 1, tail = 1\<rparr>"
    by code_simp
  from a b c check_and_truncate_terminates[OF a b, of "- 4"] show ?thesis by blast
qed

subsection \<open>C9: limits outside the contract\<close>




subsection \<open>C10: enqueue on a full array\<close>

text \<open>
  C10. In a state where every slot is occupied and \<open>head = tail\<close>, \<open>enqueue\<close> stores the
  new element in the slot at \<open>tail\<close>, replacing what was there, advances \<open>tail\<close> by one
  modulo \<open>sz\<close>, leaves \<open>head\<close> alone and returns status 1, the same value an ordinary
  overflow returns; nothing else is returned. If the state is the one left behind by an
  enqueue of \<open>e0\<close> that reported overflow on a queue holding \<open>xs\<close>, the replaced slot held
  the first element of \<open>xs @ [e0]\<close>, the oldest one.
\<close>

theorem enqueue_on_full_queue:
  assumes "sz = int (length (fifo q))" and "in_bounds (fifo q) (tail q)"
    and "head q = tail q" and "None \<notin> set (fifo q)"
  shows "enqueue q sz (Some e) =
           Inr (1, q\<lparr>fifo := (fifo q)[nat (tail q) := Some e], tail := (tail q + 1) mod sz\<rparr>) \<and>
         (\<forall>q0 xs e0. ring sz q0 xs \<and> enqueue q0 sz (Some e0) = Inr (1, q) \<longrightarrow>
            fifo q ! nat (tail q) = Some (hd (xs @ [e0])))"
proof
  define arr where "arr = (fifo q)[nat (tail q) := Some e]"
  define t where "t = (tail q + 1) mod sz"
  have pos: "0 < sz" using assms(1,2) in_bounds_pos by auto
  have "0 \<le> tail q + 1" using assms(2) by (simp add: in_bounds_def)
  then have crem: "c_rem (tail q + 1) sz = t"
    using pos unfolding t_def by (rule c_rem_nonneg)
  have tb: "in_bounds arr t"
    using pos by (simp add: in_bounds_def arr_def t_def flip: assms(1))
  have "set arr \<subseteq> insert (Some e) (set (fifo q))"
    unfolding arr_def by (rule set_update_subset_insert)
  then have "None \<notin> set arr" using assms(4) by auto
  moreover have "arr ! nat t \<in> set arr"
    using in_bounds_nat[OF tb] by simp
  ultimately have "arr ! nat t \<noteq> None" by metis
  then show "enqueue q sz (Some e) =
      Inr (1, q\<lparr>fifo := (fifo q)[nat (tail q) := Some e], tail := (tail q + 1) mod sz\<rparr>)"
    using assms(2) pos tb
    by (simp add: enqueue_def Let_def crem flip: arr_def) (simp add: t_def arr_def)
next
  show "\<forall>q0 xs e0. ring sz q0 xs \<and> enqueue q0 sz (Some e0) = Inr (1, q) \<longrightarrow>
            fifo q ! nat (tail q) = Some (hd (xs @ [e0]))"
  proof (intro allI impI, elim conjE)
    fix q0 :: "'a queue" and xs e0
    assume r: "ring sz q0 xs" and enq: "enqueue q0 sz (Some e0) = Inr (1, q)"
    from ring_enqueue(1)[OF r, of e0] enq
    have q: "q = q0\<lparr>fifo := (fifo q0)[nat (tail q0) := Some e0], tail := (tail q0 + 1) mod sz\<rparr>"
      by simp
    have hq: "head q = head q0" and lq: "length (fifo q) = length (fifo q0)"
      by (simp_all add: q)
    have h: "nat (head q) < length (fifo q)"
      using in_bounds_nat[OF ring_lengths(3)[OF r]] by (simp add: hq lq)
    have "rotate (nat (head q)) (fifo q) =
        map Some (xs @ [e0]) @ replicate (length (fifo q0) - Suc (length xs)) None"
      using ring_enqueue(2)[OF r, of e0] by (simp add: q)
    then have "rotate (nat (head q)) (fifo q) ! 0 = Some (hd (xs @ [e0]))"
      by (cases xs) simp_all
    moreover have "rotate (nat (head q)) (fifo q) ! 0 = fifo q ! nat (head q)"
      using h nth_rotate[of 0 "fifo q" "nat (head q)"] by (cases "fifo q") simp_all
    ultimately show "fifo q ! nat (tail q) = Some (hd (xs @ [e0]))"
      using assms(3) by simp
  qed
qed

theorem enqueue_on_full_queue_witness:
  "2 = int (length (fifo \<lparr>fifo = [Some ''ab'', Some ''cd''], head = 0, tail = 0\<rparr>)) \<and>
   in_bounds (fifo \<lparr>fifo = [Some ''ab'', Some ''cd''], head = 0, tail = 0\<rparr>)
     (tail \<lparr>fifo = [Some ''ab'', Some ''cd''], head = 0, tail = 0\<rparr>) \<and>
   head \<lparr>fifo = [Some ''ab'', Some ''cd''], head = 0, tail = 0\<rparr> =
     tail \<lparr>fifo = [Some ''ab'', Some ''cd''], head = 0, tail = 0\<rparr> \<and>
   None \<notin> set (fifo \<lparr>fifo = [Some ''ab'', Some ''cd''], head = 0, tail = 0\<rparr>) \<and>
   ring 2 \<lparr>fifo = [Some ''ab'', None], head = 0, tail = 1\<rparr> [''ab''] \<and>
   enqueue \<lparr>fifo = [Some ''ab'', None], head = 0, tail = 1\<rparr> 2 (Some ''cd'') =
     Inr (1, \<lparr>fifo = [Some ''ab'', Some ''cd''], head = 0, tail = 0\<rparr>) \<and>
   fifo \<lparr>fifo = [Some ''ab'', Some ''cd''], head = 0, tail = 0\<rparr> !
     nat (tail \<lparr>fifo = [Some ''ab'', Some ''cd''], head = 0, tail = 0\<rparr>) =
     Some (hd ([''ab''] @ [''cd''])) \<and>
   enqueue \<lparr>fifo = [Some ''ab'', Some ''cd''], head = 0, tail = 0\<rparr> 2 (Some ''ef'') =
     Inr (1, \<lparr>fifo = [Some ''ef'', Some ''cd''], head = 0, tail = 1\<rparr>)"
proof -
  have a: "2 = int (length (fifo \<lparr>fifo = [Some ''ab'', Some ''cd''], head = 0, tail = 0\<rparr>))"
    by simp
  have b: "in_bounds (fifo \<lparr>fifo = [Some ''ab'', Some ''cd''], head = 0, tail = 0\<rparr>)
     (tail \<lparr>fifo = [Some ''ab'', Some ''cd''], head = 0, tail = 0\<rparr>)"
    by (simp add: in_bounds_def)
  have c: "head \<lparr>fifo = [Some ''ab'', Some ''cd''], head = 0, tail = 0\<rparr> =
     tail \<lparr>fifo = [Some ''ab'', Some ''cd''], head = 0, tail = 0\<rparr>"
    by simp
  have d: "None \<notin> set (fifo \<lparr>fifo = [Some ''ab'', Some ''cd''], head = 0, tail = 0\<rparr>)"
    by simp
  have r: "ring 2 \<lparr>fifo = [Some ''ab'', None], head = 0, tail = 1\<rparr> [''ab'']"
    by code_simp
  have e: "enqueue \<lparr>fifo = [Some ''ab'', None], head = 0, tail = 1\<rparr> 2 (Some ''cd'') =
     Inr (1, \<lparr>fifo = [Some ''ab'', Some ''cd''], head = 0, tail = 0\<rparr>)"
    by code_simp
  from enqueue_on_full_queue[OF a b c d, of "''ef''"] r e
  have "fifo \<lparr>fifo = [Some ''ab'', Some ''cd''], head = 0, tail = 0\<rparr> !
     nat (tail \<lparr>fifo = [Some ''ab'', Some ''cd''], head = 0, tail = 0\<rparr>) =
     Some (hd ([''ab''] @ [''cd''])) \<and>
   enqueue \<lparr>fifo = [Some ''ab'', Some ''cd''], head = 0, tail = 0\<rparr> 2 (Some ''ef'') =
     Inr (1, \<lparr>fifo = [Some ''ef'', Some ''cd''], head = 0, tail = 1\<rparr>)"
    by simp
  with a b c d r e show ?thesis by blast
qed

end
